theory Spec2Isabelle
  imports Main "HOL-Library.Word" "HOL-Library.Monad_Syntax"
begin

unbundle bit_operations_syntax

section \<open>Memory model\<close>

text \<open>
  A ziplist is one heap allocation. It is modelled as the list of its bytes; a pointer
  into it is the offset from the start of the allocation. A read or a write outside
  of the allocation, and a failed assertion, is the result \<open>None\<close>. Sizes, lengths and
  offsets are natural numbers; where the source stores one in a fixed-width field or
  passes it through an \<open>unsigned int\<close>, the reduction modulo \<open>2 ^ 32\<close> (\<open>2 ^ 16\<close>) is
  written out.
\<close>

type_synonym byte = "8 word"
type_synonym blob = "byte list"

definition rd :: "blob \<Rightarrow> nat \<Rightarrow> byte option" where
  "rd zl i = (if i < length zl then Some (zl ! i) else None)"

definition rdn :: "blob \<Rightarrow> nat \<Rightarrow> nat \<Rightarrow> blob option" where
  "rdn zl i n = (if i + n \<le> length zl then Some (take n (drop i zl)) else None)"

definition wr :: "blob \<Rightarrow> nat \<Rightarrow> blob \<Rightarrow> blob option" where
  "wr zl i bs =
     (if i + length bs \<le> length zl
      then Some (take i zl @ bs @ drop (i + length bs) zl) else None)"

text \<open>\<open>memmove(zl+dst, zl+src, n)\<close>; a negative \<open>n\<close> is a huge \<open>size_t\<close>.\<close>

definition memmove :: "blob \<Rightarrow> int \<Rightarrow> int \<Rightarrow> int \<Rightarrow> blob option" where
  "memmove zl dst src n =
     (if n < 0 \<or> dst < 0 \<or> src < 0 then None
      else do { bs \<leftarrow> rdn zl (nat src) (nat n); wr zl (nat dst) bs })"

text \<open>\<open>zrealloc\<close> keeps the bytes that fit; the bytes it adds are written before they
  are read, they are modelled as zero.\<close>

definition zrealloc :: "blob \<Rightarrow> nat \<Rightarrow> blob" where
  "zrealloc zl n = take n zl @ replicate (n - length zl) 0"

definition u32 :: "nat \<Rightarrow> nat" where
  "u32 n = n mod 4294967296"

definition le16 :: "nat \<Rightarrow> blob" where
  "le16 n = [of_nat n, of_nat (n div 256)]"

definition le32 :: "nat \<Rightarrow> blob" where
  "le32 n = [of_nat n, of_nat (n div 256), of_nat (n div 65536), of_nat (n div 16777216)]"

definition unle :: "blob \<Rightarrow> nat" where
  "unle bs = foldr (\<lambda>b acc. unat b + 256 * acc) bs 0"

definition rd16 :: "blob \<Rightarrow> nat \<Rightarrow> nat option" where
  "rd16 zl i = do { bs \<leftarrow> rdn zl i 2; Some (unle bs) }"

definition rd32 :: "blob \<Rightarrow> nat \<Rightarrow> nat option" where
  "rd32 zl i = do { bs \<leftarrow> rdn zl i 4; Some (unle bs) }"

section \<open>Constants and header fields\<close>

abbreviation (input) ZIP_END :: byte where "ZIP_END \<equiv> 255"
abbreviation (input) ZIP_BIGLEN :: byte where "ZIP_BIGLEN \<equiv> 254"
abbreviation (input) ZIP_STR_MASK :: byte where "ZIP_STR_MASK \<equiv> 192"
abbreviation (input) ZIP_INT_MASK :: byte where "ZIP_INT_MASK \<equiv> 48"
abbreviation (input) ZIP_STR_06B :: byte where "ZIP_STR_06B \<equiv> 0"
abbreviation (input) ZIP_STR_14B :: byte where "ZIP_STR_14B \<equiv> 64"
abbreviation (input) ZIP_STR_32B :: byte where "ZIP_STR_32B \<equiv> 128"
abbreviation (input) ZIP_INT_16B :: byte where "ZIP_INT_16B \<equiv> 192"
abbreviation (input) ZIP_INT_32B :: byte where "ZIP_INT_32B \<equiv> 208"
abbreviation (input) ZIP_INT_64B :: byte where "ZIP_INT_64B \<equiv> 224"
abbreviation (input) ZIP_INT_24B :: byte where "ZIP_INT_24B \<equiv> 240"
abbreviation (input) ZIP_INT_8B :: byte where "ZIP_INT_8B \<equiv> 254"
abbreviation (input) ZIP_INT_IMM_MASK :: byte where "ZIP_INT_IMM_MASK \<equiv> 15"
abbreviation (input) ZIP_INT_IMM_MIN :: byte where "ZIP_INT_IMM_MIN \<equiv> 241"
abbreviation (input) ZIP_INT_IMM_MAX :: byte where "ZIP_INT_IMM_MAX \<equiv> 253"
abbreviation (input) UINT16_MAX :: nat where "UINT16_MAX \<equiv> 65535"
abbreviation (input) ZIPLIST_HEADER_SIZE :: nat where "ZIPLIST_HEADER_SIZE \<equiv> 10"

definition ZIP_IS_STR :: "byte \<Rightarrow> bool" where
  "ZIP_IS_STR enc = ((enc AND ZIP_STR_MASK) < ZIP_STR_MASK)"

definition ZIPLIST_BYTES :: "blob \<Rightarrow> nat option" where
  "ZIPLIST_BYTES zl = rd32 zl 0"

definition ZIPLIST_TAIL_OFFSET :: "blob \<Rightarrow> nat option" where
  "ZIPLIST_TAIL_OFFSET zl = rd32 zl 4"

definition ZIPLIST_LENGTH :: "blob \<Rightarrow> nat option" where
  "ZIPLIST_LENGTH zl = rd16 zl 8"

definition set_ZIPLIST_BYTES :: "blob \<Rightarrow> nat \<Rightarrow> blob option" where
  "set_ZIPLIST_BYTES zl v = wr zl 0 (le32 v)"

definition set_ZIPLIST_TAIL_OFFSET :: "blob \<Rightarrow> int \<Rightarrow> blob option" where
  "set_ZIPLIST_TAIL_OFFSET zl v = wr zl 4 (le32 (nat (v mod 4294967296)))"

definition set_ZIPLIST_LENGTH :: "blob \<Rightarrow> int \<Rightarrow> blob option" where
  "set_ZIPLIST_LENGTH zl v = wr zl 8 (le16 (nat (v mod 65536)))"

definition ZIPLIST_INCR_LENGTH :: "blob \<Rightarrow> int \<Rightarrow> blob option" where
  "ZIPLIST_INCR_LENGTH zl incr =
     do { n \<leftarrow> ZIPLIST_LENGTH zl;
          if n < UINT16_MAX then set_ZIPLIST_LENGTH zl (int n + incr) else Some zl }"

section \<open>Entry headers\<close>

record zlentry =
  prevrawlensize :: nat
  prevrawlen :: nat
  lensize :: nat
  vallen :: nat
  headersize :: nat
  encoding :: byte
  ptr :: nat

definition ZIP_ENTRY_ENCODING :: "blob \<Rightarrow> nat \<Rightarrow> byte option" where
  "ZIP_ENTRY_ENCODING zl p =
     do { b \<leftarrow> rd zl p; Some (if b < ZIP_STR_MASK then b AND ZIP_STR_MASK else b) }"

definition zipIntSize :: "byte \<Rightarrow> nat" where
  "zipIntSize enc =
     (if enc = ZIP_INT_8B then 1
      else if enc = ZIP_INT_16B then 2
      else if enc = ZIP_INT_24B then 3
      else if enc = ZIP_INT_32B then 4
      else if enc = ZIP_INT_64B then 8
      else 0)"

text \<open>\<open>zipEncodeLength\<close> gives the bytes \<open>buf[0..len)\<close> it copies to \<open>p\<close>; the number it
  returns (the only effect when \<open>p\<close> is \<open>NULL\<close>) is their count.\<close>

definition zipEncodeLength :: "byte \<Rightarrow> nat \<Rightarrow> blob" where
  "zipEncodeLength enc rawlen =
     (if ZIP_IS_STR enc then
        (if rawlen \<le> 63 then [ZIP_STR_06B OR of_nat rawlen]
         else if rawlen \<le> 16383 then
           [ZIP_STR_14B OR (of_nat (rawlen div 256) AND 63), of_nat rawlen AND 255]
         else [ZIP_STR_32B, of_nat (rawlen div 16777216) AND 255,
               of_nat (rawlen div 65536) AND 255, of_nat (rawlen div 256) AND 255,
               of_nat rawlen AND 255])
      else [enc])"

definition ZIP_DECODE_LENGTH :: "blob \<Rightarrow> nat \<Rightarrow> (byte \<times> nat \<times> nat) option" where
  "ZIP_DECODE_LENGTH zl p =
     do { enc \<leftarrow> ZIP_ENTRY_ENCODING zl p;
          if enc < ZIP_STR_MASK then
            (if enc = ZIP_STR_06B then
               do { b0 \<leftarrow> rd zl p; Some (enc, 1, unat (b0 AND 63)) }
             else if enc = ZIP_STR_14B then
               do { b0 \<leftarrow> rd zl p; b1 \<leftarrow> rd zl (p + 1);
                    Some (enc, 2, push_bit 8 (unat (b0 AND 63)) OR unat b1) }
             else if enc = ZIP_STR_32B then
               do { b1 \<leftarrow> rd zl (p + 1); b2 \<leftarrow> rd zl (p + 2);
                    b3 \<leftarrow> rd zl (p + 3); b4 \<leftarrow> rd zl (p + 4);
                    Some (enc, 5, push_bit 24 (unat b1) OR push_bit 16 (unat b2)
                                   OR push_bit 8 (unat b3) OR unat b4) }
             else None)
          else Some (enc, 1, zipIntSize enc) }"

text \<open>\<open>zipPrevEncodeLength(NULL, len)\<close> is the length of the bytes that
  \<open>zipPrevEncodeLength(p, len)\<close> writes.\<close>

definition zipPrevEncodeLength :: "nat \<Rightarrow> blob" where
  "zipPrevEncodeLength n = (if n < 254 then [of_nat n] else ZIP_BIGLEN # le32 n)"

definition zipPrevEncodeLengthForceLarge :: "nat \<Rightarrow> blob" where
  "zipPrevEncodeLengthForceLarge n = ZIP_BIGLEN # le32 n"

definition ZIP_DECODE_PREVLENSIZE :: "blob \<Rightarrow> nat \<Rightarrow> nat option" where
  "ZIP_DECODE_PREVLENSIZE zl p =
     do { b \<leftarrow> rd zl p; Some (if b < ZIP_BIGLEN then 1 else 5) }"

definition ZIP_DECODE_PREVLEN :: "blob \<Rightarrow> nat \<Rightarrow> (nat \<times> nat) option" where
  "ZIP_DECODE_PREVLEN zl p =
     do { sz \<leftarrow> ZIP_DECODE_PREVLENSIZE zl p;
          if sz = 1 then do { b \<leftarrow> rd zl p; Some (sz, unat b) }
          else do { v \<leftarrow> rd32 zl (p + 1); Some (sz, v) } }"

definition zipPrevLenByteDiff :: "blob \<Rightarrow> nat \<Rightarrow> nat \<Rightarrow> int option" where
  "zipPrevLenByteDiff zl p n =
     do { sz \<leftarrow> ZIP_DECODE_PREVLENSIZE zl p;
          Some (int (length (zipPrevEncodeLength n)) - int sz) }"

definition zipRawEntryLength :: "blob \<Rightarrow> nat \<Rightarrow> nat option" where
  "zipRawEntryLength zl p =
     do { sz \<leftarrow> ZIP_DECODE_PREVLENSIZE zl p;
          (enc, lsz, n) \<leftarrow> ZIP_DECODE_LENGTH zl (p + sz);
          Some (u32 (sz + lsz + n)) }"

definition zipEntry :: "blob \<Rightarrow> nat \<Rightarrow> zlentry option" where
  "zipEntry zl p =
     do { (sz, pl) \<leftarrow> ZIP_DECODE_PREVLEN zl p;
          (enc, lsz, n) \<leftarrow> ZIP_DECODE_LENGTH zl (p + sz);
          Some \<lparr> prevrawlensize = sz, prevrawlen = pl, lensize = lsz, vallen = n,
                 headersize = sz + lsz, encoding = enc, ptr = p \<rparr> }"

section \<open>Integer payloads\<close>

text \<open>A \<open>long long\<close> is an integer between \<open>- 2 ^ 63\<close> and \<open>2 ^ 63 - 1\<close>. Converting
  to a signed type of \<open>w\<close> bits keeps the low \<open>w\<close> bits, read in two's complement.\<close>

definition sint_n :: "nat \<Rightarrow> int \<Rightarrow> int" where
  "sint_n w x = (x + 2 ^ (w - 1)) mod 2 ^ w - 2 ^ (w - 1)"

text \<open>Modelled from the spec: \<open>string2ll\<close> is defined in a file that is not among the
  sources. The spec says that the byte slice is parsed "as a signed decimal integer":
  an optional minus sign, then one or more decimal digits, with a value that a signed
  64-bit integer holds.\<close>

fun parse_digits :: "blob \<Rightarrow> nat \<Rightarrow> nat option" where
  "parse_digits [] acc = Some acc"
| "parse_digits (b # bs) acc =
     (if 48 \<le> b \<and> b \<le> 57 then parse_digits bs (10 * acc + (unat b - 48)) else None)"

definition string2ll :: "blob \<Rightarrow> int option" where
  "string2ll s =
     (case s of
        [] \<Rightarrow> None
      | b # bs \<Rightarrow>
          if b = 45 then
            (if bs = [] then None
             else case parse_digits bs 0 of
                    None \<Rightarrow> None
                  | Some n \<Rightarrow> if n \<le> 9223372036854775808 then Some (- int n) else None)
          else
            (case parse_digits s 0 of
               None \<Rightarrow> None
             | Some n \<Rightarrow> if n < 9223372036854775808 then Some (int n) else None))"

definition zipTryEncoding :: "blob \<Rightarrow> (int \<times> byte) option" where
  "zipTryEncoding entry =
     (if length entry \<ge> 32 \<or> length entry = 0 then None
      else case string2ll entry of
        None \<Rightarrow> None
      | Some v \<Rightarrow>
          Some (v,
            if v \<ge> 0 \<and> v \<le> 12 then ZIP_INT_IMM_MIN + of_int v
            else if v \<ge> - 128 \<and> v \<le> 127 then ZIP_INT_8B
            else if v \<ge> - 32768 \<and> v \<le> 32767 then ZIP_INT_16B
            else if v \<ge> - 8388608 \<and> v \<le> 8388607 then ZIP_INT_24B
            else if v \<ge> - 2147483648 \<and> v \<le> 2147483647 then ZIP_INT_32B
            else ZIP_INT_64B))"

text \<open>The \<open>k\<close> low bytes of an integer in two's complement, least significant first:
  what \<open>memcpy\<close> from a \<open>k\<close>-byte integer variable followed by \<open>memrev..ifbe\<close> stores.\<close>

fun le_int :: "nat \<Rightarrow> int \<Rightarrow> blob" where
  "le_int 0 v = []"
| "le_int (Suc k) v = of_int v # le_int k (v div 256)"

definition zipSaveInteger :: "blob \<Rightarrow> nat \<Rightarrow> int \<Rightarrow> byte \<Rightarrow> blob option" where
  "zipSaveInteger zl p v enc =
     (if enc = ZIP_INT_8B then wr zl p [of_int v]
      else if enc = ZIP_INT_16B then wr zl p (le_int 2 v)
      else if enc = ZIP_INT_24B then
        (let i32 = sint_n 32 (v * 256) in wr zl p (le_int 3 (i32 div 256)))
      else if enc = ZIP_INT_32B then wr zl p (le_int 4 v)
      else if enc = ZIP_INT_64B then wr zl p (le_int 8 v)
      else if enc \<ge> ZIP_INT_IMM_MIN \<and> enc \<le> ZIP_INT_IMM_MAX then Some zl
      else None)"

definition zipLoadInteger :: "blob \<Rightarrow> nat \<Rightarrow> byte \<Rightarrow> int option" where
  "zipLoadInteger zl p enc =
     (if enc = ZIP_INT_8B then do { b \<leftarrow> rd zl p; Some (sint b) }
      else if enc = ZIP_INT_16B then do { bs \<leftarrow> rdn zl p 2; Some (sint_n 16 (int (unle bs))) }
      else if enc = ZIP_INT_32B then do { bs \<leftarrow> rdn zl p 4; Some (sint_n 32 (int (unle bs))) }
      else if enc = ZIP_INT_24B then
        do { bs \<leftarrow> rdn zl p 3; Some (sint_n 32 (int (unle (0 # bs))) div 256) }
      else if enc = ZIP_INT_64B then do { bs \<leftarrow> rdn zl p 8; Some (sint_n 64 (int (unle bs))) }
      else if enc \<ge> ZIP_INT_IMM_MIN \<and> enc \<le> ZIP_INT_IMM_MAX then
        Some (int (unat (enc AND ZIP_INT_IMM_MASK)) - 1)
      else None)"

section \<open>Creating, resizing and the cascade update\<close>

definition ziplistNew :: blob where
  "ziplistNew = le32 (ZIPLIST_HEADER_SIZE + 1) @ le32 ZIPLIST_HEADER_SIZE @ le16 0 @ [ZIP_END]"

definition ziplistResize :: "blob \<Rightarrow> int \<Rightarrow> blob option" where
  "ziplistResize zl n =
     (let len = nat (n mod 4294967296)
      in do { zl1 \<leftarrow> set_ZIPLIST_BYTES (zrealloc zl len) len;
              if len = 0 then None else wr zl1 (len - 1) [ZIP_END] })"

text \<open>The loop of \<open>__ziplistCascadeUpdate\<close>, on its variables \<open>zl\<close>, \<open>p\<close> and \<open>curlen\<close>.\<close>

partial_function (option) cascade_loop :: "blob \<Rightarrow> nat \<Rightarrow> nat \<Rightarrow> blob option" where
  "cascade_loop zl p curlen =
     do { b \<leftarrow> rd zl p;
          if b = ZIP_END then Some zl
          else do {
            cur \<leftarrow> zipEntry zl p;
            let rawlen = u32 (headersize cur + vallen cur);
            let rawlensize = length (zipPrevEncodeLength rawlen);
            nb \<leftarrow> rd zl (p + rawlen);
            if nb = ZIP_END then Some zl
            else do {
              nxt \<leftarrow> zipEntry zl (p + rawlen);
              if prevrawlen nxt = rawlen then Some zl
              else if prevrawlensize nxt < rawlensize then
                do { let extra = rawlensize - prevrawlensize nxt;
                     zl1 \<leftarrow> ziplistResize zl (int curlen + int extra);
                     let np = p + rawlen;
                     t \<leftarrow> ZIPLIST_TAIL_OFFSET zl1;
                     zl2 \<leftarrow> (if t \<noteq> np then set_ZIPLIST_TAIL_OFFSET zl1 (int t + int extra)
                             else Some zl1);
                     zl3 \<leftarrow> memmove zl2 (int np + int rawlensize)
                              (int np + int (prevrawlensize nxt))
                              (int curlen - int np - int (prevrawlensize nxt) - 1);
                     zl4 \<leftarrow> wr zl3 np (zipPrevEncodeLength rawlen);
                     cascade_loop zl4 (p + rawlen) (curlen + extra) }
              else if prevrawlensize nxt > rawlensize then
                wr zl (p + rawlen) (zipPrevEncodeLengthForceLarge rawlen)
              else wr zl (p + rawlen) (zipPrevEncodeLength rawlen) } } }"

text \<open>\<open>__ziplistCascadeUpdate\<close> (a name cannot start with an underscore: \<open>uu_\<close>
  stands for the two).\<close>

definition uu_ziplistCascadeUpdate :: "blob \<Rightarrow> nat \<Rightarrow> blob option" where
  "uu_ziplistCascadeUpdate zl p = do { curlen \<leftarrow> ZIPLIST_BYTES zl; cascade_loop zl p curlen }"

section \<open>Deleting and inserting\<close>

text \<open>The \<open>for\<close> loop of \<open>__ziplistDelete\<close>: the first argument counts the rounds that
  \<open>i < num\<close> still allows; the result is \<open>p\<close> and \<open>deleted\<close>.\<close>

fun delete_skip :: "nat \<Rightarrow> blob \<Rightarrow> nat \<Rightarrow> nat \<Rightarrow> (nat \<times> nat) option" where
  "delete_skip 0 zl p deleted = do { b \<leftarrow> rd zl p; Some (p, deleted) }"
| "delete_skip (Suc k) zl p deleted =
     do { b \<leftarrow> rd zl p;
          if b \<noteq> ZIP_END then
            do { l \<leftarrow> zipRawEntryLength zl p; delete_skip k zl (p + l) (deleted + 1) }
          else Some (p, deleted) }"

definition uu_ziplistDelete :: "blob \<Rightarrow> nat \<Rightarrow> nat \<Rightarrow> blob option" where
  "uu_ziplistDelete zl p0 num =
     do { first \<leftarrow> zipEntry zl p0;
          (p, deleted) \<leftarrow> delete_skip num zl p0 0;
          let totlen = p - ptr first;
          if totlen > 0 then
            do { b \<leftarrow> rd zl p;
                 (zl5, nextdiff) \<leftarrow>
                   (if b \<noteq> ZIP_END then
                      do { nextdiff \<leftarrow> zipPrevLenByteDiff zl p (prevrawlen first);
                           let q = int p - nextdiff;
                           zl1 \<leftarrow> (if q < 0 then None
                                   else wr zl (nat q) (zipPrevEncodeLength (prevrawlen first)));
                           t \<leftarrow> ZIPLIST_TAIL_OFFSET zl1;
                           zl2 \<leftarrow> set_ZIPLIST_TAIL_OFFSET zl1 (int t - int totlen);
                           tail \<leftarrow> zipEntry zl2 (nat q);
                           b2 \<leftarrow> rd zl2 (nat q + u32 (headersize tail + vallen tail));
                           zl3 \<leftarrow> (if b2 \<noteq> ZIP_END then
                                     do { t2 \<leftarrow> ZIPLIST_TAIL_OFFSET zl2;
                                          set_ZIPLIST_TAIL_OFFSET zl2 (int t2 + nextdiff) }
                                   else Some zl2);
                           bytes \<leftarrow> ZIPLIST_BYTES zl3;
                           zl4 \<leftarrow> memmove zl3 (int (ptr first)) q (int bytes - q - 1);
                           Some (zl4, nextdiff) }
                    else
                      do { zl1 \<leftarrow> set_ZIPLIST_TAIL_OFFSET zl
                                    (int (ptr first) - int (prevrawlen first));
                           Some (zl1, 0) });
                 let offset = ptr first;
                 bytes \<leftarrow> ZIPLIST_BYTES zl5;
                 zl6 \<leftarrow> ziplistResize zl5 (int bytes - int totlen + nextdiff);
                 zl7 \<leftarrow> ZIPLIST_INCR_LENGTH zl6 (- int deleted);
                 if nextdiff \<noteq> 0 then uu_ziplistCascadeUpdate zl7 offset else Some zl7 }
          else Some zl }"

definition uu_ziplistInsert :: "blob \<Rightarrow> nat \<Rightarrow> blob \<Rightarrow> blob option" where
  "uu_ziplistInsert zl p s =
     do { curlen \<leftarrow> ZIPLIST_BYTES zl;
          b \<leftarrow> rd zl p;
          prevlen \<leftarrow>
            (if b \<noteq> ZIP_END then do { (sz, pl) \<leftarrow> ZIP_DECODE_PREVLEN zl p; Some pl }
             else do { ptail \<leftarrow> ZIPLIST_TAIL_OFFSET zl;
                       tb \<leftarrow> rd zl ptail;
                       if tb \<noteq> ZIP_END then zipRawEntryLength zl ptail else Some 0 });
          let (reqlen0, enc, v) =
                (case zipTryEncoding s of
                   Some (v, enc) \<Rightarrow> (zipIntSize enc, enc, v)
                 | None \<Rightarrow> (length s, 0, 123456789));
          let reqlen = reqlen0 + length (zipPrevEncodeLength prevlen)
                         + length (zipEncodeLength enc (length s));
          nextdiff \<leftarrow> (if b \<noteq> ZIP_END then zipPrevLenByteDiff zl p (u32 reqlen) else Some 0);
          let offset = p;
          zl1 \<leftarrow> ziplistResize zl (int curlen + int reqlen + nextdiff);
          b1 \<leftarrow> rd zl1 p;
          zl5 \<leftarrow>
            (if b1 \<noteq> ZIP_END then
               do { zl2 \<leftarrow> memmove zl1 (int p + int reqlen) (int p - nextdiff)
                            (int curlen - int offset - 1 + nextdiff);
                    zl3 \<leftarrow> wr zl2 (p + reqlen) (zipPrevEncodeLength (u32 reqlen));
                    t \<leftarrow> ZIPLIST_TAIL_OFFSET zl3;
                    zl4 \<leftarrow> set_ZIPLIST_TAIL_OFFSET zl3 (int t + int reqlen);
                    tail \<leftarrow> zipEntry zl4 (p + reqlen);
                    b2 \<leftarrow> rd zl4 (p + (reqlen + headersize tail + vallen tail));
                    if b2 \<noteq> ZIP_END then
                      do { t2 \<leftarrow> ZIPLIST_TAIL_OFFSET zl4;
                           set_ZIPLIST_TAIL_OFFSET zl4 (int t2 + nextdiff) }
                    else Some zl4 }
             else set_ZIPLIST_TAIL_OFFSET zl1 (int p));
          zl6 \<leftarrow> (if nextdiff \<noteq> 0 then uu_ziplistCascadeUpdate zl5 (p + reqlen) else Some zl5);
          zl7 \<leftarrow> wr zl6 p (zipPrevEncodeLength prevlen);
          let p1 = p + length (zipPrevEncodeLength prevlen);
          zl8 \<leftarrow> wr zl7 p1 (zipEncodeLength enc (length s));
          let p2 = p1 + length (zipEncodeLength enc (length s));
          zl9 \<leftarrow> (if ZIP_IS_STR enc then wr zl8 p2 s else zipSaveInteger zl8 p2 v enc);
          ZIPLIST_INCR_LENGTH zl9 1 }"

text \<open>\<open>ZIPLIST_HEAD\<close> and \<open>ZIPLIST_TAIL\<close> are declared in a header that is not among the
  sources; the spec writes \<open>push(head|tail, bytes)\<close>.\<close>

datatype zl_where = ZIPLIST_HEAD | ZIPLIST_TAIL

definition ziplistPush :: "blob \<Rightarrow> blob \<Rightarrow> zl_where \<Rightarrow> blob option" where
  "ziplistPush zl s wh =
     do { p \<leftarrow> (if wh = ZIPLIST_HEAD then Some ZIPLIST_HEADER_SIZE
                else do { bytes \<leftarrow> ZIPLIST_BYTES zl;
                          if bytes = 0 then None else Some (bytes - 1) });
          uu_ziplistInsert zl p s }"

definition ziplistInsert :: "blob \<Rightarrow> nat \<Rightarrow> blob \<Rightarrow> blob option" where
  "ziplistInsert zl p s = uu_ziplistInsert zl p s"

section \<open>Reading\<close>

text \<open>The two loops of \<open>ziplistIndex\<close>, on \<open>p\<close> and \<open>index\<close>; they give the last values
  of both.\<close>

fun index_fwd :: "nat \<Rightarrow> blob \<Rightarrow> nat \<Rightarrow> (nat \<times> int) option" where
  "index_fwd 0 zl p = do { b \<leftarrow> rd zl p; Some (p, if b \<noteq> ZIP_END then - 1 else 0) }"
| "index_fwd (Suc i) zl p =
     do { b \<leftarrow> rd zl p;
          if b \<noteq> ZIP_END then do { l \<leftarrow> zipRawEntryLength zl p; index_fwd i zl (p + l) }
          else Some (p, int (Suc i)) }"

fun index_bwd :: "nat \<Rightarrow> blob \<Rightarrow> nat \<Rightarrow> nat \<Rightarrow> (nat \<times> int) option" where
  "index_bwd 0 zl p prevlen = Some (p, if prevlen > 0 then - 1 else 0)"
| "index_bwd (Suc i) zl p prevlen =
     (if prevlen > 0 then
        (if prevlen > p then None
         else do { (sz, pl) \<leftarrow> ZIP_DECODE_PREVLEN zl (p - prevlen);
                   index_bwd i zl (p - prevlen) pl })
      else Some (p, int (Suc i)))"

text \<open>The result \<open>Some None\<close> is the pointer \<open>NULL\<close>. For a negative \<open>index\<close> the
  source computes \<open>(-index)-1\<close>, which is \<open>- index - 1\<close> for every \<open>int\<close> but the least one, where
  the negation overflows.\<close>

definition ziplistIndex :: "blob \<Rightarrow> int \<Rightarrow> nat option option" where
  "ziplistIndex zl index =
     do { (p, i) \<leftarrow>
            (if index < 0 then
               do { p \<leftarrow> ZIPLIST_TAIL_OFFSET zl;
                    b \<leftarrow> rd zl p;
                    if b \<noteq> ZIP_END then
                      do { (sz, pl) \<leftarrow> ZIP_DECODE_PREVLEN zl p;
                           index_bwd (nat (- index - 1)) zl p pl }
                    else Some (p, - index - 1) }
             else index_fwd (nat index) zl ZIPLIST_HEADER_SIZE);
          b \<leftarrow> rd zl p;
          Some (if b = ZIP_END \<or> i > 0 then None else Some p) }"

definition ziplistNext :: "blob \<Rightarrow> nat \<Rightarrow> nat option option" where
  "ziplistNext zl p =
     do { b \<leftarrow> rd zl p;
          if b = ZIP_END then Some None
          else do { l \<leftarrow> zipRawEntryLength zl p;
                    b2 \<leftarrow> rd zl (p + l);
                    Some (if b2 = ZIP_END then None else Some (p + l)) } }"

definition ziplistPrev :: "blob \<Rightarrow> nat \<Rightarrow> nat option option" where
  "ziplistPrev zl p =
     do { b \<leftarrow> rd zl p;
          if b = ZIP_END then
            do { t \<leftarrow> ZIPLIST_TAIL_OFFSET zl; tb \<leftarrow> rd zl t;
                 Some (if tb = ZIP_END then None else Some t) }
          else if p = ZIPLIST_HEADER_SIZE then Some None
          else do { (sz, pl) \<leftarrow> ZIP_DECODE_PREVLEN zl p;
                    if pl > 0 \<and> pl \<le> p then Some (Some (p - pl)) else None } }"

datatype zl_value = ZStr blob | ZInt int

text \<open>\<open>ziplistGet\<close> called with all three result pointers; \<open>Some None\<close> is the result 0.\<close>

definition ziplistGet :: "blob \<Rightarrow> nat option \<Rightarrow> zl_value option option" where
  "ziplistGet zl po =
     (case po of
        None \<Rightarrow> Some None
      | Some p \<Rightarrow>
          do { b \<leftarrow> rd zl p;
               if b = ZIP_END then Some None
               else do { entry \<leftarrow> zipEntry zl p;
                         if ZIP_IS_STR (encoding entry) then
                           do { bs \<leftarrow> rdn zl (p + headersize entry) (vallen entry);
                                Some (Some (ZStr bs)) }
                         else do { v \<leftarrow> zipLoadInteger zl (p + headersize entry) (encoding entry);
                                   Some (Some (ZInt v)) } } })"

definition ziplistDelete :: "blob \<Rightarrow> nat \<Rightarrow> (blob \<times> nat) option" where
  "ziplistDelete zl p = do { zl1 \<leftarrow> uu_ziplistDelete zl p 1; Some (zl1, p) }"

definition ziplistDeleteRange :: "blob \<Rightarrow> nat \<Rightarrow> nat \<Rightarrow> blob option" where
  "ziplistDeleteRange zl index num =
     do { po \<leftarrow> ziplistIndex zl (sint_n 32 (int index));
          case po of None \<Rightarrow> Some zl | Some p \<Rightarrow> uu_ziplistDelete zl p num }"

definition ziplistCompare :: "blob \<Rightarrow> nat \<Rightarrow> blob \<Rightarrow> bool option" where
  "ziplistCompare zl p sstr =
     do { b \<leftarrow> rd zl p;
          if b = ZIP_END then Some False
          else do { entry \<leftarrow> zipEntry zl p;
                    if ZIP_IS_STR (encoding entry) then
                      (if vallen entry = length sstr then
                         do { bs \<leftarrow> rdn zl (p + headersize entry) (length sstr);
                              Some (bs = sstr) }
                       else Some False)
                    else
                      (case zipTryEncoding sstr of
                         Some (sval, sencoding) \<Rightarrow>
                           do { zval \<leftarrow> zipLoadInteger zl (p + headersize entry) (encoding entry);
                                Some (zval = sval) }
                       | None \<Rightarrow> Some False) } }"

text \<open>The loop of \<open>ziplistLen\<close>, on \<open>p\<close> and \<open>len\<close>.\<close>

partial_function (option) len_walk :: "blob \<Rightarrow> nat \<Rightarrow> nat \<Rightarrow> nat option" where
  "len_walk zl p n =
     do { b \<leftarrow> rd zl p;
          if b \<noteq> ZIP_END then
            do { l \<leftarrow> zipRawEntryLength zl p; len_walk zl (p + l) (u32 (n + 1)) }
          else Some n }"

text \<open>\<open>ziplistLen\<close> gives the length and the blob, whose count field it may rewrite.\<close>

definition ziplistLen :: "blob \<Rightarrow> (nat \<times> blob) option" where
  "ziplistLen zl =
     do { n \<leftarrow> ZIPLIST_LENGTH zl;
          if n < UINT16_MAX then Some (n, zl)
          else do { len \<leftarrow> len_walk zl ZIPLIST_HEADER_SIZE 0;
                    zl1 \<leftarrow> (if len < UINT16_MAX then set_ZIPLIST_LENGTH zl (int len)
                            else Some zl);
                    Some (len, zl1) } }"

definition ziplistBlobLen :: "blob \<Rightarrow> nat option" where
  "ziplistBlobLen zl = ZIPLIST_BYTES zl"

definition bytes_of :: "string \<Rightarrow> blob" where
  "bytes_of s = map (\<lambda>c. of_nat (of_char c)) s"

section \<open>Basic facts about bytes and memory\<close>

lemma unat_byte_lt: "unat (b::byte) < 256"
  using unsigned_less[of b] by simp

lemma unat_of_nat_byte: "unat (of_nat n :: byte) = n mod 256"
  by (simp add: unat_of_nat)

lemma nat_and_63: "(n::nat) AND 63 = n mod 64"
  using take_bit_eq_mask[of 6 n] by (simp add: take_bit_eq_mod mask_eq_exp_minus_1)

lemma nat_and_3: "(n::nat) AND 3 = n mod 4"
  using take_bit_eq_mask[of 2 n] by (simp add: take_bit_eq_mod mask_eq_exp_minus_1)

lemma nat_and_15: "(n::nat) AND 15 = n mod 16"
  using take_bit_eq_mask[of 4 n] by (simp add: take_bit_eq_mod mask_eq_exp_minus_1)

lemma nat_and_push_bit: "(n::nat) AND push_bit m c = push_bit m (drop_bit m n AND c)"
  by (auto simp: bit_eq_iff bit_simps)

lemma nat_and_192: "(n::nat) AND 192 = 64 * ((n div 64) mod 4)"
  using nat_and_push_bit[of n 6 3] by (simp add: push_bit_eq_mult drop_bit_eq_div nat_and_3)

lemma unat_and_63: "unat (b AND (63::byte)) = unat b mod 64"
  by (simp add: unsigned_and_eq nat_and_63)

lemma unat_and_15: "unat (b AND (15::byte)) = unat b mod 16"
  by (simp add: unsigned_and_eq nat_and_15)

lemma unat_and_192: "unat (b AND (192::byte)) = 64 * (unat b div 64)"
proof -
  have "unat b div 64 < 4" using unat_byte_lt[of b] by simp
  then show ?thesis by (simp add: unsigned_and_eq nat_and_192)
qed

lemma push_or_add: "(y::nat) < 2 ^ m \<Longrightarrow> push_bit m x OR y = x * 2 ^ m + y"
proof -
  assume a: "y < 2 ^ m"
  have "push_bit m x + y = push_bit m x OR y"
  proof (rule disjunctive_add)
    fix n show "\<not> bit (push_bit m x) n \<or> \<not> bit y n"
    proof (cases "n < m")
      case True then show ?thesis by (simp add: bit_simps)
    next
      case False
      then have "2 ^ m \<le> (2::nat) ^ n" by simp
      with a have "y < 2 ^ n" by linarith
      then have "\<not> bit y n" by (simp add: bit_iff_odd)
      then show ?thesis by simp
    qed
  qed
  then show ?thesis by (simp add: push_bit_eq_mult)
qed

lemma ZIP_IS_STR_iff: "ZIP_IS_STR e \<longleftrightarrow> e < 192"
proof -
  have "(unat e div 64 < 3) = (unat e < 192)" by arith
  then show ?thesis by (simp add: ZIP_IS_STR_def word_less_nat_alt unat_and_192)
qed

lemma unle_Cons [simp]: "unle (b # bs) = unat b + 256 * unle bs"
  by (simp add: unle_def)

lemma unle_Nil [simp]: "unle [] = 0"
  by (simp add: unle_def)

lemma length_le32 [simp]: "length (le32 n) = 4"
  by (simp add: le32_def)

lemma length_le16 [simp]: "length (le16 n) = 2"
  by (simp add: le16_def)

lemma length_le_int [simp]: "length (le_int k v) = k"
  by (induction k arbitrary: v) auto

lemma unle_le_int: "int (unle (le_int k v)) = v mod 256 ^ k"
proof (induction k arbitrary: v)
  case 0 show ?case by simp
next
  case (Suc k)
  have "int (unle (le_int (Suc k) v)) = v mod 256 + 256 * (v div 256 mod 256 ^ k)"
    using Suc[of "v div 256"] by (simp add: uint_word_of_int)
  also have "\<dots> = v mod (256 * 256 ^ k)"
    using zmod_zmult2_eq[of "256 ^ k" v 256] by simp
  finally show ?case by simp
qed

lemma unle_le32: "n < 4294967296 \<Longrightarrow> unle (le32 n) = n"
proof -
  assume lt: "n < 4294967296"
  define a where "a = n div 256"
  define b where "b = a div 256"
  define c where "c = b div 256"
  have "n div (256 * 256) = n div 256 div 256" by (rule div_mult2_eq)
  then have e1: "n div 65536 = b" unfolding b_def a_def by simp
  have "n div (65536 * 256) = n div 65536 div 256" by (rule div_mult2_eq)
  then have e2: "n div 16777216 = c" unfolding c_def e1[symmetric] by simp
  have l: "le32 n = [of_nat n, of_nat a, of_nat b, of_nat c]"
    unfolding le32_def e1 e2 a_def[symmetric] by (rule refl)
  have f: "n = 256 * a + n mod 256" "a = 256 * b + a mod 256" "b = 256 * c + b mod 256"
    unfolding a_def b_def c_def by simp_all
  have "c < 256" using lt e2 by (simp add: less_mult_imp_div_less flip: e2) 
  then have "n mod 256 + 256 * (a mod 256 + 256 * (b mod 256 + 256 * (c mod 256))) = n"
    using f by simp
  then show ?thesis unfolding l by (simp add: unat_of_nat)
qed

lemma unle_le16: "n < 65536 \<Longrightarrow> unle (le16 n) = n"
proof -
  assume lt: "n < 65536"
  define a where "a = n div 256"
  have l: "le16 n = [of_nat n, of_nat a]" unfolding le16_def a_def by (rule refl)
  have f: "n = 256 * a + n mod 256" unfolding a_def by simp
  have "a < 256" using lt unfolding a_def by (simp add: less_mult_imp_div_less)
  then have "n mod 256 + 256 * (a mod 256) = n" using f by simp
  then show ?thesis unfolding l by (simp add: unat_of_nat)
qed

lemma sint_n_mod:
  assumes "0 < w" "- (2 ^ (w - 1)) \<le> v" "v < 2 ^ (w - 1)"
  shows "sint_n w (v mod 2 ^ w) = v"
proof -
  have e: "(2::int) ^ w = 2 * 2 ^ (w - 1)" using assms(1) by (cases w) auto
  have "(v mod 2 ^ w + 2 ^ (w - 1)) mod 2 ^ w = (v + 2 ^ (w - 1)) mod 2 ^ w"
    by (simp add: mod_add_left_eq)
  also have "\<dots> = v + 2 ^ (w - 1)" using assms e by (intro mod_pos_pos_trivial) auto
  finally show ?thesis by (simp add: sint_n_def)
qed

lemma sint_n_id:
  assumes "0 < w" "- (2 ^ (w - 1)) \<le> v" "v < 2 ^ (w - 1)"
  shows "sint_n w v = v"
proof -
  have e: "(2::int) ^ w = 2 * 2 ^ (w - 1)" using assms(1) by (cases w) auto
  have "(v + 2 ^ (w - 1)) mod 2 ^ w = v + 2 ^ (w - 1)"
    using assms e by (intro mod_pos_pos_trivial) auto
  then show ?thesis by (simp add: sint_n_def)
qed

lemma sint_of_int_byte: "- 128 \<le> v \<Longrightarrow> v \<le> 127 \<Longrightarrow> sint (of_int v :: byte) = v"
  using sint_n_id[of 8 v] by (simp add: int_word_sint sint_n_def)

lemma rdn_wr_same: "wr zl p bs = Some zl' \<Longrightarrow> rdn zl' p (length bs) = Some bs"
  by (auto simp: wr_def rdn_def split: if_splits)

lemma length_wr: "wr zl p bs = Some zl' \<Longrightarrow> length zl' = length zl"
  by (auto simp: wr_def split: if_splits)

lemma wr_ok: "p + length bs \<le> length zl \<Longrightarrow> \<exists>zl'. wr zl p bs = Some zl'"
  by (simp add: wr_def)

lemma rd_wr_same: "wr zl p [b] = Some zl' \<Longrightarrow> rd zl' p = Some b"
  by (auto simp: wr_def rd_def nth_append split: if_splits)

section \<open>Reading and writing inside a blob\<close>

lemma rd_at: "p = length A \<Longrightarrow> rd (A @ b # C) p = Some b"
  by (simp add: rd_def)

lemma rdn_at: "p = length A \<Longrightarrow> n = length B \<Longrightarrow> rdn (A @ B @ C) p n = Some B"
  by (simp add: rdn_def)

lemma wr_at: "p = length A \<Longrightarrow> length bs = length B \<Longrightarrow> wr (A @ B @ C) p bs = Some (A @ bs @ C)"
  by (simp add: wr_def)

lemma rd_ctx: "rd b i = Some x \<Longrightarrow> rd (A @ b @ C) (length A + i) = Some x"
  by (auto simp: rd_def nth_append split: if_splits)

lemma rd_ctx0: "rd b 0 = Some x \<Longrightarrow> rd (A @ b @ C) (length A) = Some x"
  using rd_ctx[of b 0 x A C] by simp

lemma rdn_ctx: "rdn b i n = Some x \<Longrightarrow> rdn (A @ b @ C) (length A + i) n = Some x"
  by (auto simp: rdn_def split: if_splits)

section \<open>The layout of a ziplist\<close>

text \<open>
  The layout that the spec gives: a header of ten bytes with the total number of bytes,
  the offset of the last entry and the count of entries, then the entries, then the
  terminator \<open>0xFF\<close>. An entry is described by the width of its \<open>prevLen\<close> field (5 bytes
  or 1), the value stored there, and its body: the \<open>typeLen\<close> field followed by the
  payload. \<open>pv\<close> gives the bytes of the \<open>prevLen\<close> field, \<open>eb\<close> the bytes of an entry.
\<close>

type_synonym ent = "bool \<times> nat \<times> blob"

definition pv :: "bool \<Rightarrow> nat \<Rightarrow> blob" where
  "pv lg pl = (if lg then 254 # le32 pl else [of_nat pl])"

definition eb :: "ent \<Rightarrow> blob" where
  "eb e = pv (fst e) (fst (snd e)) @ snd (snd e)"

text \<open>
  The bodies that the spec's table of \<open>typeLen\<close> kinds admits, row by row: a string of at
  most 63 bytes after one byte \<open>00xxxxxx\<close>; a string after two bytes \<open>01xxxxxx yyyyyyyy\<close>
  that hold its length, most significant bits first; a string after \<open>10000000\<close> and four
  bytes that hold its length, most significant byte first; the integers of 2, 4, 8, 3 and 1
  bytes after \<open>0xC0\<close>, \<open>0xD0\<close>, \<open>0xE0\<close>, \<open>0xF0\<close> and \<open>0xFE\<close>; and the bytes \<open>0xF1\<close> to
  \<open>0xFD\<close>, which carry their value themselves. No function of the source occurs in it.
\<close>

definition body_spec :: "blob \<Rightarrow> bool" where
  "body_spec b =
     (case b of
        [] \<Rightarrow> False
      | h # r \<Rightarrow>
          (let x = unat h in
           if x < 64 then length r = x
           else if x < 128 then
             (case r of [] \<Rightarrow> False | y # s \<Rightarrow> length s = (x - 64) * 256 + unat y)
           else if x = 128 then
             (case r of
                b1 # b2 # b3 # b4 # s \<Rightarrow>
                  length s = unat b1 * 16777216 + unat b2 * 65536 + unat b3 * 256 + unat b4
              | _ \<Rightarrow> False)
           else if x = 192 then length r = 2
           else if x = 208 then length r = 4
           else if x = 224 then length r = 8
           else if x = 240 then length r = 3
           else if x = 254 then length r = 1
           else if 241 \<le> x \<and> x \<le> 253 then length r = 0
           else False))"

text \<open>An entry of the spec: a \<open>prevLen\<close> field of one byte holds a value below 254, one of
  five bytes a value of 32 bits; the body is one of the table.\<close>

definition ent_spec :: "ent \<Rightarrow> bool" where
  "ent_spec e = ((fst e \<or> fst (snd e) < 254) \<and> fst (snd e) < 4294967296 \<and> body_spec (snd (snd e)))"

text \<open>
  What the source makes of a body: \<open>body_ok b\<close> says that \<open>ZIP_DECODE_LENGTH\<close>, applied to
  the first byte of \<open>b\<close>, finds a header and a payload that together are \<open>b\<close>. The lemmas
  about the source's walks are stated with it; \<open>body_spec_ok\<close> below shows that the source
  decodes every body of the table this way.
\<close>

definition body_ok :: "blob \<Rightarrow> bool" where
  "body_ok b = (case ZIP_DECODE_LENGTH b 0 of None \<Rightarrow> False | Some (enc, lsz, n) \<Rightarrow> lsz + n = length b)"

definition ent_ok :: "ent \<Rightarrow> bool" where
  "ent_ok e = ((fst e \<or> fst (snd e) < 254) \<and> fst (snd e) < 4294967296 \<and> body_ok (snd (snd e)))"

lemma rd_drop: "rd (drop p zl) i = rd zl (p + i)"
  by (auto simp: rd_def)

lemma rd_app: "rd b i = Some x \<Longrightarrow> rd (b @ C) i = Some x"
  by (auto simp: rd_def nth_append split: if_splits)

lemma and192_lo: "(y::byte) < 64 \<Longrightarrow> y AND 192 = 0"
  by (simp add: word_unat_eq_iff unat_and_192 word_less_nat_alt)

lemma and192_mid: "(64::byte) \<le> y \<Longrightarrow> y < 128 \<Longrightarrow> y AND 192 = 64"
  by (simp add: word_unat_eq_iff unat_and_192 word_less_nat_alt word_le_nat_alt)

lemma and192_hi: "(128::byte) \<le> y \<Longrightarrow> y < 192 \<Longrightarrow> y AND 192 = 128"
  by (simp add: word_unat_eq_iff unat_and_192 word_less_nat_alt word_le_nat_alt)

lemma DL_06: "rd zl p = Some y \<Longrightarrow> y < 64 \<Longrightarrow> ZIP_DECODE_LENGTH zl p = Some (0, 1, unat y)"
  by (simp add: ZIP_DECODE_LENGTH_def ZIP_ENTRY_ENCODING_def and192_lo unat_and_63 word_less_nat_alt)

lemma DL_14: "rd zl p = Some y \<Longrightarrow> 64 \<le> y \<Longrightarrow> y < 128 \<Longrightarrow>
   ZIP_DECODE_LENGTH zl p = do { b1 \<leftarrow> rd zl (p + 1); Some (64, 2, (unat y - 64) * 256 + unat b1) }"
proof -
  assume a: "rd zl p = Some y" "64 \<le> y" "y < 128"
  have y: "y < 192" "y AND 192 = 64" using a and192_mid[of y] by (simp_all add: word_less_nat_alt)
  have "64 \<le> unat y" "unat y < 128" using a by (simp_all add: word_less_nat_alt word_le_nat_alt)
  then have m: "unat y mod 64 = unat y - 64" by (simp add: le_mod_geq)
  have "\<And>b1. push_bit 8 (unat y - 64) OR unat (b1::byte) = (unat y - 64) * 256 + unat b1"
    using push_or_add[of _ 8] unat_byte_lt by simp
  then show ?thesis using a y m
    by (simp add: ZIP_DECODE_LENGTH_def ZIP_ENTRY_ENCODING_def unat_and_63)
qed

definition be32 :: "byte \<Rightarrow> byte \<Rightarrow> byte \<Rightarrow> byte \<Rightarrow> nat" where
  "be32 b1 b2 b3 b4 = unat b1 * 16777216 + unat b2 * 65536 + unat b3 * 256 + unat b4"

lemma be32_or: "push_bit 24 (unat b1) OR push_bit 16 (unat b2) OR push_bit 8 (unat b3) OR unat b4 = be32 (b1::byte) (b2::byte) (b3::byte) (b4::byte)"
proof -
  have 1: "push_bit 8 (unat b3) OR unat b4 = unat b3 * 256 + unat b4"
    using push_or_add[of "unat b4" 8 "unat b3"] unat_byte_lt[of b4] by simp
  have "unat b3 * 256 + unat b4 < 2 ^ 16" using unat_byte_lt[of b3] unat_byte_lt[of b4] by simp
  then have 2: "push_bit 16 (unat b2) OR (unat b3 * 256 + unat b4) = unat b2 * 65536 + (unat b3 * 256 + unat b4)"
    using push_or_add[of "unat b3 * 256 + unat b4" 16 "unat b2"] by simp
  have "unat b2 * 65536 + (unat b3 * 256 + unat b4) < 2 ^ 24"
    using unat_byte_lt[of b2] unat_byte_lt[of b3] unat_byte_lt[of b4] by simp
  then have 3: "push_bit 24 (unat b1) OR (unat b2 * 65536 + (unat b3 * 256 + unat b4)) = unat b1 * 16777216 + (unat b2 * 65536 + (unat b3 * 256 + unat b4))"
    using push_or_add[of "unat b2 * 65536 + (unat b3 * 256 + unat b4)" 24 "unat b1"] by simp
  show ?thesis unfolding be32_def using 1 2 3 by (simp add: or.assoc)
qed

lemma DL_32: "rd zl p = Some y \<Longrightarrow> 128 \<le> y \<Longrightarrow> y < 192 \<Longrightarrow>
   ZIP_DECODE_LENGTH zl p = do { b1 \<leftarrow> rd zl (p + 1); b2 \<leftarrow> rd zl (p + 2); b3 \<leftarrow> rd zl (p + 3); b4 \<leftarrow> rd zl (p + 4);
       Some (128, 5, be32 b1 b2 b3 b4) }"
  by (simp add: ZIP_DECODE_LENGTH_def ZIP_ENTRY_ENCODING_def and192_hi be32_or)

lemma DL_int: "rd zl p = Some y \<Longrightarrow> 192 \<le> y \<Longrightarrow> ZIP_DECODE_LENGTH zl p = Some (y, 1, zipIntSize y)"
  by (simp add: ZIP_DECODE_LENGTH_def ZIP_ENTRY_ENCODING_def word_less_nat_alt word_le_nat_alt)

lemma DL_none: "rd zl p = None \<Longrightarrow> ZIP_DECODE_LENGTH zl p = None"
  by (simp add: ZIP_DECODE_LENGTH_def ZIP_ENTRY_ENCODING_def)


lemma DL_14_intro:
  "rd zl p = Some y \<Longrightarrow> 64 \<le> y \<Longrightarrow> y < 128 \<Longrightarrow> rd zl (p + 1) = Some b1 \<Longrightarrow>
   ZIP_DECODE_LENGTH zl p = Some (64, 2, (unat y - 64) * 256 + unat b1)"
  using DL_14[of zl p y] by simp

lemma DL_14_inv:
  "rd zl p = Some y \<Longrightarrow> 64 \<le> y \<Longrightarrow> y < 128 \<Longrightarrow> ZIP_DECODE_LENGTH zl p = Some r \<Longrightarrow>
   \<exists>b1. rd zl (p + 1) = Some b1 \<and> r = (64, 2, (unat y - 64) * 256 + unat b1)"
  using DL_14[of zl p y] by (auto simp: bind_eq_Some_conv)

lemma DL_32_intro:
  "rd zl p = Some y \<Longrightarrow> 128 \<le> y \<Longrightarrow> y < 192 \<Longrightarrow> rd zl (p + 1) = Some b1 \<Longrightarrow>
   rd zl (p + 2) = Some b2 \<Longrightarrow> rd zl (p + 3) = Some b3 \<Longrightarrow> rd zl (p + 4) = Some b4 \<Longrightarrow>
   ZIP_DECODE_LENGTH zl p = Some (128, 5, be32 b1 b2 b3 b4)"
  using DL_32[of zl p y] by simp

lemma DL_32_inv:
  "rd zl p = Some y \<Longrightarrow> 128 \<le> y \<Longrightarrow> y < 192 \<Longrightarrow> ZIP_DECODE_LENGTH zl p = Some r \<Longrightarrow>
   \<exists>b1 b2 b3 b4. rd zl (p + 1) = Some b1 \<and> rd zl (p + 2) = Some b2 \<and> rd zl (p + 3) = Some b3
      \<and> rd zl (p + 4) = Some b4 \<and> r = (128, 5, be32 b1 b2 b3 b4)"
  using DL_32[of zl p y] by (auto simp: bind_eq_Some_conv)

lemma DL_ctx:
  assumes "ZIP_DECODE_LENGTH b 0 = Some r"
  shows "ZIP_DECODE_LENGTH (A @ b @ C) (length A) = Some r"
proof -
  let ?z = "A @ b @ C"
  obtain y where y: "rd b 0 = Some y" using assms DL_none[of b 0] by (cases "rd b 0") auto
  have y': "rd ?z (length A) = Some y" using rd_ctx0[OF y] .
  consider (a) "y < 64" | (b) "64 \<le> y" "y < 128" | (c) "128 \<le> y" "y < 192" | (d) "192 \<le> y"
    by (meson linorder_not_less)
  then show ?thesis
  proof cases
    case a
    show ?thesis using assms DL_06[OF y a] DL_06[OF y' a] by simp
  next
    case b
    from DL_14_inv[OF y b assms] obtain b1 where
      b1: "rd b (0 + 1) = Some b1" and r: "r = (64, 2, (unat y - 64) * 256 + unat b1)" by blast
    have "rd ?z (length A + 1) = Some b1" using rd_ctx[OF b1, of A C] by (simp only: add_0)
    from DL_14_intro[OF y' b this] r show ?thesis by simp
  next
    case c
    from DL_32_inv[OF y c assms] obtain b1 b2 b3 b4 where
      bs: "rd b (0 + 1) = Some b1" "rd b (0 + 2) = Some b2" "rd b (0 + 3) = Some b3"
        "rd b (0 + 4) = Some b4" and r: "r = (128, 5, be32 b1 b2 b3 b4)"
      by blast
    have c1: "rd ?z (length A + 1) = Some b1" using rd_ctx[OF bs(1), of A C] by (simp only: add_0)
    have c2: "rd ?z (length A + 2) = Some b2" using rd_ctx[OF bs(2), of A C] by (simp only: add_0)
    have c3: "rd ?z (length A + 3) = Some b3" using rd_ctx[OF bs(3), of A C] by (simp only: add_0)
    have c4: "rd ?z (length A + 4) = Some b4" using rd_ctx[OF bs(4), of A C] by (simp only: add_0)
    from DL_32_intro[OF y' c c1 c2 c3 c4] r show ?thesis by simp
  next
    case d
    show ?thesis using assms DL_int[OF y d] DL_int[OF y' d] by simp
  qed
qed


text \<open>What \<open>ZIP_DECODE_LENGTH\<close> reads from a body: encoding, size of the length field and
  length of the payload.\<close>

definition b_enc :: "blob \<Rightarrow> byte" where "b_enc b = fst (the (ZIP_DECODE_LENGTH b 0))"
definition b_lsz :: "blob \<Rightarrow> nat" where "b_lsz b = fst (snd (the (ZIP_DECODE_LENGTH b 0)))"
definition b_len :: "blob \<Rightarrow> nat" where "b_len b = snd (snd (the (ZIP_DECODE_LENGTH b 0)))"

lemma body_ok_D:
  "body_ok b \<Longrightarrow> ZIP_DECODE_LENGTH b 0 = Some (b_enc b, b_lsz b, b_len b) \<and> b_lsz b + b_len b = length b"
  by (auto simp: body_ok_def b_enc_def b_lsz_def b_len_def split: option.splits)

lemma DL_lsz_pos: "ZIP_DECODE_LENGTH zl p = Some (enc, lsz, n) \<Longrightarrow> 1 \<le> lsz"
proof -
  assume a: "ZIP_DECODE_LENGTH zl p = Some (enc, lsz, n)"
  obtain y where y: "rd zl p = Some y" using a DL_none[of zl p] by (cases "rd zl p") auto
  consider (a) "y < 64" | (b) "64 \<le> y" "y < 128" | (c) "128 \<le> y" "y < 192" | (d) "192 \<le> y"
    by (meson linorder_not_less)
  then show ?thesis
  proof cases
    case a then show ?thesis using DL_06[OF y a] \<open>ZIP_DECODE_LENGTH zl p = Some (enc, lsz, n)\<close> by simp
  next
    case b then show ?thesis using DL_14_inv[OF y b a] by auto
  next
    case c then show ?thesis using DL_32_inv[OF y c a] by auto
  next
    case d then show ?thesis using DL_int[OF y d] a by simp
  qed
qed

lemma body_ok_len: "body_ok b \<Longrightarrow> 1 \<le> b_lsz b \<and> 1 \<le> length b"
  using body_ok_D[of b] DL_lsz_pos[of b 0 "b_enc b" "b_lsz b" "b_len b"] by auto

text \<open>The source decodes every body of the spec's table as the table says.\<close>

lemma zipIntSize_kinds:
  "zipIntSize 192 = 2" "zipIntSize 208 = 4" "zipIntSize 224 = 8" "zipIntSize 240 = 3" "zipIntSize 254 = 1"
  by (simp_all add: zipIntSize_def)

lemma zipIntSize_imm: "241 \<le> unat h \<Longrightarrow> unat h \<le> 253 \<Longrightarrow> zipIntSize h = 0"
  by (auto simp: zipIntSize_def)

lemma byte_eq_unat: "unat (h::byte) = n \<Longrightarrow> n < 256 \<Longrightarrow> h = of_nat n"
  by (auto simp: word_unat_eq_iff unat_of_nat)

lemma body_spec_ok:
  assumes "body_spec b"
  shows "body_ok b"
proof -
  from assms obtain h r where b: "b = h # r" by (cases b) (auto simp: body_spec_def)
  have r0: "rd (h # r) 0 = Some h" by (simp add: rd_def)
  consider (s06) "unat h < 64" "length r = unat h"
    | (s14) y s where "64 \<le> unat h" "unat h < 128" "r = y # s" "length s = (unat h - 64) * 256 + unat y"
    | (s32) b1 b2 b3 b4 s where "unat h = 128" "r = b1 # b2 # b3 # b4 # s" "length s = be32 b1 b2 b3 b4"
    | (int) "192 \<le> unat h" "length r = zipIntSize h"
  proof -
    have "unat h < 64 \<or> (64 \<le> unat h \<and> unat h < 128) \<or> unat h = 128 \<or> 128 < unat h" by linarith
    then show ?thesis
    proof (elim disjE)
      assume "unat h < 64"
      then show ?thesis using assms b s06 by (simp add: body_spec_def)
    next
      assume a: "64 \<le> unat h \<and> unat h < 128"
      then obtain y s where "r = y # s" "length s = (unat h - 64) * 256 + unat y"
        using assms b by (cases r) (auto simp: body_spec_def)
      then show ?thesis using a s14 by blast
    next
      assume a: "unat h = 128"
      then obtain b1 b2 b3 b4 s where "r = b1 # b2 # b3 # b4 # s" "length s = be32 b1 b2 b3 b4"
        using assms b by (auto simp: body_spec_def be32_def split: list.splits)
      then show ?thesis using a s32 by blast
    next
      assume a: "128 < unat h"
      then have k: "unat h = 192 \<or> unat h = 208 \<or> unat h = 224 \<or> unat h = 240 \<or> unat h = 254
          \<or> (241 \<le> unat h \<and> unat h \<le> 253)"
        using assms b by (auto simp: body_spec_def Let_def split: if_splits)
      have "length r = zipIntSize h"
        using k
      proof (elim disjE)
        assume "241 \<le> unat h \<and> unat h \<le> 253"
        then show ?thesis using assms b zipIntSize_imm[of h] by (auto simp: body_spec_def Let_def split: if_splits)
      qed (use assms b zipIntSize_kinds byte_eq_unat[of h] in \<open>auto simp: body_spec_def Let_def split: if_splits\<close>)
      moreover have "192 \<le> unat h" using k by auto
      ultimately show ?thesis using int by blast
    qed
  qed
  then show ?thesis
  proof cases
    case s06
    have "h < 64" using s06 by (simp add: word_less_nat_alt)
    from DL_06[OF r0 this] s06 show ?thesis by (simp add: body_ok_def b)
  next
    case s14
    have h: "64 \<le> h" "h < 128" using s14 by (simp_all add: word_less_nat_alt word_le_nat_alt)
    have "rd (h # y # s) (0 + 1) = Some y" by (simp add: rd_def)
    from DL_14_intro[OF _ h this] s14 show ?thesis by (simp add: body_ok_def b rd_def)
  next
    case s32
    have h: "128 \<le> h" "h < 192" using s32 by (simp_all add: word_less_nat_alt word_le_nat_alt)
    let ?z = "h # b1 # b2 # b3 # b4 # s"
    have "rd ?z 0 = Some h" "rd ?z (0 + 1) = Some b1" "rd ?z (0 + 2) = Some b2" "rd ?z (0 + 3) = Some b3" "rd ?z (0 + 4) = Some b4"
      by (simp_all add: rd_def)
    from DL_32_intro[OF this(1) h this(2-5)] s32 show ?thesis by (simp add: body_ok_def b)
  next
    case int
    have "192 \<le> h" using int by (simp add: word_le_nat_alt)
    from DL_int[OF r0 this] int show ?thesis by (simp add: body_ok_def b)
  qed
qed

lemma ent_spec_ok: "ent_spec e \<Longrightarrow> ent_ok e"
  using body_spec_ok by (simp add: ent_spec_def ent_ok_def)

lemma list_spec_ok: "list_all ent_spec es \<Longrightarrow> list_all ent_ok es"
  by (induction es) (simp_all add: ent_spec_ok)

text \<open>Decoding the \<open>prevLen\<close> field.\<close>

lemma length_pv [simp]: "length (pv lg pl) = (if lg then 5 else 1)"
  by (simp add: pv_def)

lemma rd32_at: "p = length A \<Longrightarrow> n < 4294967296 \<Longrightarrow> rd32 (A @ le32 n @ C) p = Some n"
  using rdn_at[of p A 4 "le32 n" C] by (simp add: rd32_def unle_le32)

lemma rd16_at: "p = length A \<Longrightarrow> n < 65536 \<Longrightarrow> rd16 (A @ le16 n @ C) p = Some n"
  using rdn_at[of p A 2 "le16 n" C] by (simp add: rd16_def unle_le16)

lemma of_nat_byte_lt254: "n < 254 \<Longrightarrow> (of_nat n :: byte) < 254 \<and> unat (of_nat n :: byte) = n"
  by (simp add: word_less_nat_alt unat_of_nat)

lemma pv_first: "lg \<or> pl < 254 \<Longrightarrow> \<exists>x xs. pv lg pl = x # xs \<and> x \<noteq> 255 \<and> (x < 254 \<longleftrightarrow> \<not> lg)"
  using of_nat_byte_lt254[of pl] by (auto simp: pv_def)

lemma PLS_at:
  assumes "p = length A" "lg \<or> pl < 254"
  shows "ZIP_DECODE_PREVLENSIZE (A @ pv lg pl @ C) p = Some (if lg then 5 else 1)"
proof -
  from pv_first[OF assms(2)] obtain x xs where x: "pv lg pl = x # xs" "x \<noteq> 255" "x < 254 \<longleftrightarrow> \<not> lg"
    by blast
  have "rd (A @ pv lg pl @ C) p = Some x" using rd_at[OF assms(1), of x "xs @ C"] x by simp
  then show ?thesis using x by (simp add: ZIP_DECODE_PREVLENSIZE_def)
qed

lemma rd_pv_at:
  assumes "p = length A" "lg \<or> pl < 254"
  shows "\<exists>x. rd (A @ pv lg pl @ C) p = Some x \<and> x \<noteq> 255"
proof -
  from pv_first[OF assms(2)] obtain x xs where x: "pv lg pl = x # xs" "x \<noteq> 255" 
    by blast
  have "rd (A @ pv lg pl @ C) p = Some x" using rd_at[OF assms(1), of x "xs @ C"] x by simp
  then show ?thesis using x by simp
qed

lemma PL_at:
  assumes "p = length A" "lg \<or> pl < 254" "pl < 4294967296"
  shows "ZIP_DECODE_PREVLEN (A @ pv lg pl @ C) p = Some (if lg then 5 else 1, pl)"
proof (cases lg)
  case True
  have "rd32 ((A @ [254]) @ le32 pl @ C) (p + 1) = Some pl"
    by (rule rd32_at) (use assms in auto)
  then show ?thesis using PLS_at[OF assms(1,2), of C] True
    by (simp add: ZIP_DECODE_PREVLEN_def pv_def)
next
  case False
  then have "pl < 254" using assms by simp
  have "rd (A @ of_nat pl # C) p = Some (of_nat pl)" by (rule rd_at[OF assms(1)])
  then show ?thesis using PLS_at[OF assms(1,2), of C] False of_nat_byte_lt254[OF \<open>pl < 254\<close>]
    by (simp add: ZIP_DECODE_PREVLEN_def pv_def)
qed

text \<open>Decoding a whole entry inside a blob.\<close>

lemma length_eb: "length (eb (lg, pl, b)) = (if lg then 5 else 1) + length b"
  by (simp add: eb_def)

lemma DL_eb_at:
  assumes "p = length A" "body_ok b"
  shows "ZIP_DECODE_LENGTH (A @ eb (lg, pl, b) @ C) (p + (if lg then 5 else 1)) = Some (b_enc b, b_lsz b, b_len b)"
proof -
  have "ZIP_DECODE_LENGTH ((A @ pv lg pl) @ b @ C) (length (A @ pv lg pl)) = Some (b_enc b, b_lsz b, b_len b)"
    using body_ok_D[OF assms(2)] by (intro DL_ctx) simp
  then show ?thesis using assms(1) by (simp add: eb_def)
qed

lemma zipEntry_at:
  assumes "p = length A" "ent_ok (lg, pl, b)"
  shows "zipEntry (A @ eb (lg, pl, b) @ C) p =
     Some \<lparr> prevrawlensize = (if lg then 5 else 1), prevrawlen = pl, lensize = b_lsz b, vallen = b_len b,
            headersize = (if lg then 5 else 1) + b_lsz b,  encoding = b_enc b, ptr = p \<rparr>"
proof -
  from assms(2) have ok: "lg \<or> pl < 254" "pl < 4294967296" "body_ok b" by (simp_all add: ent_ok_def)
  have 1: "ZIP_DECODE_PREVLEN (A @ eb (lg, pl, b) @ C) p = Some (if lg then 5 else 1, pl)"
    using PL_at[OF assms(1) ok(1,2), of "b @ C"] by (simp add: eb_def)
  show ?thesis using 1 DL_eb_at[OF assms(1) ok(3), of lg pl C]
    by (simp add: zipEntry_def)
qed

lemma zipRawEntryLength_at:
  assumes "p = length A" "ent_ok (lg, pl, b)" "length (eb (lg, pl, b)) < 4294967296"
  shows "zipRawEntryLength (A @ eb (lg, pl, b) @ C) p = Some (length (eb (lg, pl, b)))"
proof -
  from assms(2) have ok: "lg \<or> pl < 254" "pl < 4294967296" "body_ok b" by (simp_all add: ent_ok_def)
  have 1: "ZIP_DECODE_PREVLENSIZE (A @ eb (lg, pl, b) @ C) p = Some (if lg then 5 else 1)"
    using PLS_at[OF assms(1) ok(1), of "b @ C"] by (simp add: eb_def)
  show ?thesis using 1 DL_eb_at[OF assms(1) ok(3), of lg pl C] body_ok_D[OF ok(3)] assms(3)
    by (simp add: zipRawEntryLength_def length_eb u32_def add.assoc)
qed

lemma rd_eb_at:
  assumes "p = length A" "ent_ok (lg, pl, b)"
  shows "\<exists>x. rd (A @ eb (lg, pl, b) @ C) p = Some x \<and> x \<noteq> 255"
  using rd_pv_at[OF assms(1), of lg pl "b @ C"] assms(2) by (simp add: eb_def ent_ok_def)


text \<open>The header and the operations on its fields.\<close>

definition hdr :: "nat \<Rightarrow> nat \<Rightarrow> nat \<Rightarrow> blob" where
  "hdr b t c = le32 b @ le32 t @ le16 c"

lemma length_hdr [simp]: "length (hdr b t c) = 10"
  by (simp add: hdr_def)

lemma H_bytes: "b < 4294967296 \<Longrightarrow> ZIPLIST_BYTES (hdr b t c @ R) = Some b"
  using rd32_at[of 0 "[]" b "le32 t @ le16 c @ R"] by (simp add: ZIPLIST_BYTES_def hdr_def)

lemma H_tail: "t < 4294967296 \<Longrightarrow> ZIPLIST_TAIL_OFFSET (hdr b t c @ R) = Some t"
  using rd32_at[of 4 "le32 b" t "le16 c @ R"] by (simp add: ZIPLIST_TAIL_OFFSET_def hdr_def)

lemma H_len: "c < 65536 \<Longrightarrow> ZIPLIST_LENGTH (hdr b t c @ R) = Some c"
  using rd16_at[of 8 "le32 b @ le32 t" c R] by (simp add: ZIPLIST_LENGTH_def hdr_def)

lemma H_set_bytes: "set_ZIPLIST_BYTES (hdr b t c @ R) v = Some (hdr v t c @ R)"
  using wr_at[of 0 "[]" "le32 v" "le32 b" "le32 t @ le16 c @ R"]
  by (simp add: set_ZIPLIST_BYTES_def hdr_def)

lemma H_set_tail:
  "0 \<le> v \<Longrightarrow> v < 4294967296 \<Longrightarrow> set_ZIPLIST_TAIL_OFFSET (hdr b t c @ R) v = Some (hdr b (nat v) c @ R)"
  using wr_at[of 4 "le32 b" "le32 (nat v)" "le32 t" "le16 c @ R"]
  by (simp add: set_ZIPLIST_TAIL_OFFSET_def hdr_def)

lemma H_set_len:
  "0 \<le> v \<Longrightarrow> v < 65536 \<Longrightarrow> set_ZIPLIST_LENGTH (hdr b t c @ R) v = Some (hdr b t (nat v) @ R)"
  using wr_at[of 8 "le32 b @ le32 t" "le16 (nat v)" "le16 c" "R"]
  by (simp add: set_ZIPLIST_LENGTH_def hdr_def)

definition incr_count :: "nat \<Rightarrow> int \<Rightarrow> nat" where
  "incr_count c d = (if c < 65535 then nat ((int c + d) mod 65536) else c)"

lemma H_incr:
  "c < 65536 \<Longrightarrow> ZIPLIST_INCR_LENGTH (hdr b t c @ R) d = Some (hdr b t (incr_count c d) @ R)"
  using wr_at[of 8 "le32 b @ le32 t" "le16 (nat ((int c + d) mod 65536))" "le16 c" "R"]
  by (simp add: ZIPLIST_INCR_LENGTH_def H_len set_ZIPLIST_LENGTH_def incr_count_def) (simp add: hdr_def)

lemma H_resize:
  assumes "11 \<le> n" "n < 4294967296"
  shows "ziplistResize (hdr b t c @ R) (int n) =
     Some (hdr n t c @ butlast (take (n - 10) R @ replicate (n - 10 - length R) 0) @ [255])"
proof -
  let ?B = "take (n - 10) R @ replicate (n - 10 - length R) 0"
  have z: "zrealloc (hdr b t c @ R) n = hdr b t c @ ?B"
    using assms by (simp add: zrealloc_def)
  have lB: "length ?B = n - 10" by simp
  then have "?B \<noteq> []" using assms by auto
  then have B: "?B = butlast ?B @ [last ?B]" by simp
  have w: "wr ((hdr n t c @ butlast ?B) @ [last ?B] @ []) (n - 1) [255] = Some ((hdr n t c @ butlast ?B) @ [255] @ [])"
    by (rule wr_at) (use assms lB in auto)
  have "nat (int n mod 4294967296) = n" using assms by simp
  then show ?thesis using assms z H_set_bytes[of b t c ?B n] w B
    by (simp add: ziplistResize_def Let_def del: butlast_append take_append)
qed

definition ebs :: "ent list \<Rightarrow> blob" where
  "ebs es = concat (map eb es)"

fun chain :: "nat \<Rightarrow> ent list \<Rightarrow> bool" where
  "chain pl [] = True"
| "chain pl (e # es) = (fst (snd e) = pl \<and> chain (length (eb e)) es)"

definition tailpos :: "ent list \<Rightarrow> nat" where
  "tailpos es = 10 + length (ebs (butlast es))"

definition pos :: "ent list \<Rightarrow> nat \<Rightarrow> nat" where
  "pos es j = 10 + length (ebs (take j es))"

definition zl_of :: "nat \<Rightarrow> ent list \<Rightarrow> blob" where
  "zl_of c es = hdr (11 + length (ebs es)) (tailpos es) c @ ebs es @ [255]"

definition wf :: "nat \<Rightarrow> ent list \<Rightarrow> bool" where
  "wf c es = (list_all ent_spec es \<and> chain 0 es \<and> (c = 65535 \<or> c = length es \<and> c < 65535)
              \<and> 11 + length (ebs es) < 4294967296)"

lemma ebs_Nil [simp]: "ebs [] = []" by (simp add: ebs_def)
lemma ebs_Cons [simp]: "ebs (e # es) = eb e @ ebs es" by (simp add: ebs_def)
lemma ebs_append [simp]: "ebs (xs @ ys) = ebs xs @ ebs ys" by (simp add: ebs_def)

lemma ent_ok_len: "ent_ok e \<Longrightarrow> 2 \<le> length (eb e)"
  using body_ok_len[of "snd (snd e)"] by (cases e) (auto simp: ent_ok_def eb_def)

lemma len_walk_ebs:
  assumes "list_all ent_ok es" "p = length A" "length (ebs es) < 4294967296" "n + length es < 4294967296"
  shows "len_walk (A @ ebs es @ [255]) p n = Some (n + length es)"
  using assms
proof (induction es arbitrary: A p n)
  case Nil
  have "rd (A @ 255 # []) p = Some 255" by (rule rd_at[OF Nil(2)])
  then show ?case by (subst len_walk.simps) simp
next
  case (Cons e es)
  obtain lg pl b where e: "e = (lg, pl, b)" by (cases e) auto
  have ok: "ent_ok (lg, pl, b)" using Cons.prems(1) e by simp
  let ?C = "ebs es @ [255]"
  from rd_eb_at[OF Cons.prems(2) ok, of ?C] obtain x where
    x: "rd (A @ eb (lg, pl, b) @ ?C) p = Some x" "x \<noteq> 255" by blast
  have l: "zipRawEntryLength (A @ eb (lg, pl, b) @ ?C) p = Some (length (eb (lg, pl, b)))"
    using Cons.prems(3) e by (intro zipRawEntryLength_at[OF Cons.prems(2) ok]) simp
  have ih: "len_walk ((A @ eb e) @ ebs es @ [255]) (p + length (eb e)) (n + 1) = Some (n + 1 + length es)"
    using Cons.prems by (intro Cons.IH) auto
  have "u32 (n + 1) = n + 1" using Cons.prems(4) by (simp add: u32_def)
  then show ?case using x l ih e
    by (subst len_walk.simps) simp
qed

lemma index_fwd_ebs:
  assumes "list_all ent_ok es" "p = length A" "length (ebs es) < 4294967296"
  shows "index_fwd i (A @ ebs es @ [255]) p =
          Some (p + length (ebs (take i es)), if i < length es then - 1 else int i - int (length es))"
  using assms
proof (induction es arbitrary: A p i)
  case Nil
  have "rd (A @ 255 # []) p = Some 255" by (rule rd_at[OF Nil(2)])
  then show ?case by (cases i) simp_all
next
  case (Cons e es)
  obtain lg pl b where e: "e = (lg, pl, b)" by (cases e) auto
  have ok: "ent_ok (lg, pl, b)" using Cons.prems(1) e by simp
  let ?C = "ebs es @ [255]"
  from rd_eb_at[OF Cons.prems(2) ok, of ?C] obtain x where
    x: "rd (A @ eb (lg, pl, b) @ ?C) p = Some x" "x \<noteq> 255" by blast
  have l: "zipRawEntryLength (A @ eb (lg, pl, b) @ ?C) p = Some (length (eb (lg, pl, b)))"
    using Cons.prems(3) e by (intro zipRawEntryLength_at[OF Cons.prems(2) ok]) simp
  show ?case
  proof (cases i)
    case 0
    then show ?thesis using x e by simp
  next
    case (Suc k)
    have ih: "index_fwd k ((A @ eb e) @ ebs es @ [255]) (p + length (eb e)) =
        Some (p + length (eb e) + length (ebs (take k es)), if k < length es then - 1 else int k - int (length es))"
      using Cons.prems by (intro Cons.IH) auto
    then show ?thesis using x l e Suc by simp
  qed
qed


lemma chain_nth_gen:
  "chain pl0 es \<Longrightarrow> j < length es \<Longrightarrow>
   fst (snd (es ! j)) = (if j = 0 then pl0 else length (eb (es ! (j - 1))))"
proof (induction es arbitrary: pl0 j)
  case Nil then show ?case by simp
next
  case (Cons e es)
  show ?case
  proof (cases j)
    case 0 then show ?thesis using Cons.prems by simp
  next
    case (Suc k)
    then have "fst (snd (es ! k)) = (if k = 0 then length (eb e) else length (eb (es ! (k - 1))))"
      using Cons.prems by (intro Cons.IH) auto
    then show ?thesis using Suc by (cases k) auto
  qed
qed

lemma split_at:
  "j < length es \<Longrightarrow> H @ ebs es @ T = (H @ ebs (take j es)) @ eb (es ! j) @ (ebs (drop (Suc j) es) @ T)"
proof -
  assume "j < length es"
  then have "es = take j es @ es ! j # drop (Suc j) es" by (simp add: id_take_nth_drop)
  then have "ebs es = ebs (take j es) @ eb (es ! j) @ ebs (drop (Suc j) es)"
    by (metis ebs_Cons ebs_append)
  then show ?thesis by simp
qed

lemma ebs_take_le: "length (ebs (take j es)) \<le> length (ebs es)"
proof -
  have "ebs es = ebs (take j es) @ ebs (drop j es)" by (metis append_take_drop_id ebs_append)
  then show ?thesis by simp
qed

lemma eb_nth_le: "j < length es \<Longrightarrow> length (ebs (take j es)) + length (eb (es ! j)) \<le> length (ebs es)"
proof -
  assume "j < length es"
  then have "es = take j es @ es ! j # drop (Suc j) es" by (simp add: id_take_nth_drop)
  then have "ebs es = ebs (take j es) @ eb (es ! j) @ ebs (drop (Suc j) es)"
    by (metis ebs_Cons ebs_append)
  then show ?thesis by simp
qed

lemma ebs_take_Suc: "j < length es \<Longrightarrow> ebs (take (Suc j) es) = ebs (take j es) @ eb (es ! j)"
  by (simp add: take_Suc_conv_app_nth)

text \<open>Facts about the entry \<open>j\<close> of a blob \<open>H @ ebs es @ T\<close> with a header of 10 bytes.\<close>

lemma entry_facts:
  fixes T :: blob
  assumes "length H = 10" "list_all ent_ok es" "j < length es" "length (ebs es) < 4294967296"
  defines "zl \<equiv> H @ ebs es @ T"
  shows "\<exists>x. rd zl (pos es j) = Some x \<and> x \<noteq> 255"
    and "zipRawEntryLength zl (pos es j) = Some (length (eb (es ! j)))"
    and "ZIP_DECODE_PREVLEN zl (pos es j) = Some (if fst (es ! j) then 5 else 1, fst (snd (es ! j)))"
    and "ZIP_DECODE_PREVLENSIZE zl (pos es j) = Some (if fst (es ! j) then 5 else 1)"
    and "zipEntry zl (pos es j) =
      Some \<lparr> prevrawlensize = (if fst (es ! j) then 5 else 1), prevrawlen = fst (snd (es ! j)),
             lensize = b_lsz (snd (snd (es ! j))), vallen = b_len (snd (snd (es ! j))),
             headersize = (if fst (es ! j) then 5 else 1) + b_lsz (snd (snd (es ! j))),
             encoding = b_enc (snd (snd (es ! j))), ptr = pos es j \<rparr>"
proof -
  obtain lg pl b where e: "es ! j = (lg, pl, b)" by (cases "es ! j") auto
  have ok: "ent_ok (lg, pl, b)" using assms(2,3) e by (metis list_all_length)
  let ?A = "H @ ebs (take j es)" and ?C = "ebs (drop (Suc j) es) @ T"
  have z: "zl = ?A @ eb (lg, pl, b) @ ?C" unfolding zl_def using split_at[OF assms(3), of H T] e by simp
  have p: "pos es j = length ?A" using assms(1) by (simp add: pos_def)
  have len: "length (eb (lg, pl, b)) < 4294967296" using eb_nth_le[OF assms(3)] assms(4) e by simp
  show "\<exists>x. rd zl (pos es j) = Some x \<and> x \<noteq> 255" unfolding z by (rule rd_eb_at[OF p ok])
  show "zipRawEntryLength zl (pos es j) = Some (length (eb (es ! j)))"
    unfolding z e by (rule zipRawEntryLength_at[OF p ok len])
  from ok have ok': "lg \<or> pl < 254" "pl < 4294967296" by (simp_all add: ent_ok_def)
  show "ZIP_DECODE_PREVLEN zl (pos es j) = Some (if fst (es ! j) then 5 else 1, fst (snd (es ! j)))"
    unfolding z e using PL_at[OF p ok', of "b @ ?C"] by (simp add: eb_def)
  show "ZIP_DECODE_PREVLENSIZE zl (pos es j) = Some (if fst (es ! j) then 5 else 1)"
    unfolding z e using PLS_at[OF p ok'(1), of "b @ ?C"] by (simp add: eb_def)
  show "zipEntry zl (pos es j) =
      Some \<lparr> prevrawlensize = (if fst (es ! j) then 5 else 1), prevrawlen = fst (snd (es ! j)),
             lensize = b_lsz (snd (snd (es ! j))), vallen = b_len (snd (snd (es ! j))),
             headersize = (if fst (es ! j) then 5 else 1) + b_lsz (snd (snd (es ! j))),
             encoding = b_enc (snd (snd (es ! j))), ptr = pos es j \<rparr>"
    unfolding z e using zipEntry_at[OF p ok, of ?C] by simp
qed

lemma rd_end:
  assumes "length H = 10"
  shows "rd (H @ ebs es @ 255 # T) (pos es (length es)) = Some 255"
  using rd_at[of "pos es (length es)" "H @ ebs es" 255 T] assms by (simp add: pos_def)

lemma pos_Suc: "j < length es \<Longrightarrow> pos es (Suc j) = pos es j + length (eb (es ! j))"
  by (simp add: pos_def ebs_take_Suc)

lemma index_bwd_ebs:
  assumes "length H = 10" "list_all ent_ok es" "chain 0 es" "length (ebs es) < 4294967296"
    and "j < length es"
  shows "index_bwd k (H @ ebs es @ T) (pos es j) (fst (snd (es ! j))) =
     Some (if k \<le> j then (pos es (j - k), if k < j then - 1 else 0) else (pos es 0, int k - int j))"
  using assms(5)
proof (induction k arbitrary: j)
  case 0
  have "fst (snd (es ! j)) = (if j = 0 then 0 else length (eb (es ! (j - 1))))"
    by (rule chain_nth_gen[OF assms(3) 0])
  moreover have "2 \<le> length (eb (es ! (j - 1)))"
    using assms(2) 0 by (intro ent_ok_len) (simp add: list_all_length)
  ultimately show ?case by (cases "j = 0") auto
next
  case (Suc k)
  have pl: "fst (snd (es ! j)) = (if j = 0 then 0 else length (eb (es ! (j - 1))))"
    by (rule chain_nth_gen[OF assms(3) Suc.prems])
  show ?case
  proof (cases j)
    case 0
    then show ?thesis using pl by simp
  next
    case (Suc i)
    then have i: "i < length es" using Suc.prems by simp
    have l2: "2 \<le> length (eb (es ! i))" using assms(2) i by (intro ent_ok_len) (simp add: list_all_length)
    have pj: "pos es j = pos es i + length (eb (es ! i))" using pos_Suc[OF i] Suc by simp
    have d: "ZIP_DECODE_PREVLEN (H @ ebs es @ T) (pos es i) = Some (if fst (es ! i) then 5 else 1, fst (snd (es ! i)))"
      by (rule entry_facts(3)[OF assms(1,2) i assms(4)])
    have ih: "index_bwd k (H @ ebs es @ T) (pos es i) (fst (snd (es ! i))) =
       Some (if k \<le> i then (pos es (i - k), if k < i then - 1 else 0) else (pos es 0, int k - int i))"
      by (rule Suc.IH[OF i])
    show ?thesis using pl Suc l2 pj d ih by (auto simp del: index_bwd.simps(2) simp add: index_bwd.simps(2)[of k])
  qed
qed


lemma ebs_len_ge: "list_all ent_ok es \<Longrightarrow> 2 * length es \<le> length (ebs es)"
proof (induction es)
  case Nil then show ?case by simp
next
  case (Cons e es)
  then show ?case using ent_ok_len[of e] by simp
qed

lemma length_zl_of [simp]: "length (zl_of c es) = 11 + length (ebs es)"
  by (simp add: zl_of_def)

lemma tailpos_lt: "tailpos es \<le> 10 + length (ebs es)"
proof -
  have "ebs es = ebs (butlast es) @ ebs (drop (length es - 1) es)"
    by (metis append_take_drop_id butlast_conv_take ebs_append)
  then show ?thesis by (simp add: tailpos_def)
qed

lemma tailpos_pos: "es \<noteq> [] \<Longrightarrow> tailpos es = pos es (length es - 1)"
  by (simp add: tailpos_def pos_def butlast_conv_take)

lemma tailpos_Nil [simp]: "tailpos [] = 10"
  by (simp add: tailpos_def)

lemma ziplistLen_zl_of:
  assumes "c < 65536" "list_all ent_ok es" "11 + length (ebs es) < 4294967296"
  shows "ziplistLen (zl_of c es) =
     Some (if c < 65535 then c else length es,
           if c < 65535 \<or> 65535 \<le> length es then zl_of c es else zl_of (length es) es)"
proof -
  let ?H = "hdr (11 + length (ebs es)) (tailpos es) c"
  have n: "ZIPLIST_LENGTH (zl_of c es) = Some c" unfolding zl_of_def by (rule H_len[OF assms(1)])
  have le: "length es < 4294967296" using ebs_len_ge[OF assms(2)] assms(3) by simp
  have w: "len_walk (?H @ ebs es @ [255]) 10 0 = Some (0 + length es)"
    using assms le by (intro len_walk_ebs) auto
  have s: "length es < 65535 \<Longrightarrow> set_ZIPLIST_LENGTH (zl_of c es) (int (length es)) = Some (zl_of (length es) es)"
    unfolding zl_of_def using H_set_len[of "int (length es)" _ _ c] by simp
  show ?thesis using n w s by (auto simp: ziplistLen_def zl_of_def)
qed

lemma ziplistIndex_zl_of:
  assumes "list_all ent_ok es" "chain 0 es" "11 + length (ebs es) < 4294967296"
  shows "ziplistIndex (zl_of c es) i =
     Some (if 0 \<le> i \<and> i < int (length es) then Some (pos es (nat i))
           else if i < 0 \<and> - int (length es) \<le> i then Some (pos es (nat (int (length es) + i)))
           else None)"
proof -
  let ?H = "hdr (11 + length (ebs es)) (tailpos es) c"
  let ?zl = "?H @ ebs es @ [255]"
  have z: "zl_of c es = ?zl" by (simp add: zl_of_def)
  have H: "length ?H = 10" by simp
  have L: "length (ebs es) < 4294967296" using assms(3) by simp
  have rde: "rd ?zl (pos es (length es)) = Some 255" by (rule rd_end[OF H])
  show ?thesis
  proof (cases "0 \<le> i")
    case True
    have f: "index_fwd (nat i) ?zl 10 =
       Some (10 + length (ebs (take (nat i) es)), if nat i < length es then - 1 else int (nat i) - int (length es))"
      using assms L by (intro index_fwd_ebs) auto
    show ?thesis
    proof (cases "nat i < length es")
      case lt: True
      from entry_facts(1)[OF H assms(1) lt L, of "[255]"] obtain x where
        "rd ?zl (pos es (nat i)) = Some x" "x \<noteq> 255" by blast
      then show ?thesis using True lt f unfolding z by (simp add: ziplistIndex_def pos_def)
    next
      case ge: False
      then have "pos es (nat i) = pos es (length es)" by (simp add: pos_def)
      then show ?thesis using True ge f rde unfolding z by (simp add: ziplistIndex_def pos_def)
    qed
  next
    case False
    then have neg: "i < 0" by simp
    have t: "ZIPLIST_TAIL_OFFSET ?zl = Some (tailpos es)" using tailpos_lt[of es] assms(3) by (intro H_tail) simp
    show ?thesis
    proof (cases "es = []")
      case True
      then show ?thesis using neg t rde unfolding z by (simp add: ziplistIndex_def pos_def)
    next
      case ne: False
      define j where "j = length es - 1"
      have j: "j < length es" using ne by (simp add: j_def)
      have tp: "tailpos es = pos es j" using tailpos_pos[OF ne] by (simp add: j_def)
      from entry_facts(1)[OF H assms(1) j L, of "[255]"] obtain x where
        x: "rd ?zl (pos es j) = Some x" "x \<noteq> 255" by blast
      have d: "ZIP_DECODE_PREVLEN ?zl (pos es j) = Some (if fst (es ! j) then 5 else 1, fst (snd (es ! j)))"
        by (rule entry_facts(3)[OF H assms(1) j L])
      define k where "k = nat (- i - 1)"
      have b: "index_bwd k ?zl (pos es j) (fst (snd (es ! j))) =
          Some (if k \<le> j then (pos es (j - k), if k < j then - 1 else 0) else (pos es 0, int k - int j))"
        by (rule index_bwd_ebs[OF H assms(1,2) L j])
      show ?thesis
      proof (cases "k \<le> j")
        case le: True
        then have jk: "j - k < length es" using j by simp
        from entry_facts(1)[OF H assms(1) jk L, of "[255]"] obtain y where
          y: "rd ?zl (pos es (j - k)) = Some y" "y \<noteq> 255" by blast
        have "nat (int (length es) + i) = j - k" using le neg j by (simp add: k_def j_def) 
        moreover have "- int (length es) \<le> i" using le neg j by (simp add: k_def j_def)
        ultimately show ?thesis using neg t x d b le y unfolding z
          by (simp add: ziplistIndex_def tp k_def[symmetric])
      next
        case gt: False
        have 0: "0 < length es" using ne by simp
        from entry_facts(1)[OF H assms(1) 0 L, of "[255]"] obtain y where
          y: "rd ?zl (pos es 0) = Some y" "y \<noteq> 255" by blast
        have "\<not> (- int (length es) \<le> i)" using gt neg j by (simp add: k_def j_def)
        then show ?thesis using neg t x d b gt y unfolding z
          by (simp add: ziplistIndex_def tp k_def[symmetric])
      qed
    qed
  qed
qed

section \<open>Integer payloads are read back as they were stored\<close>

text \<open>The values an integer encoding holds; a 4-bit immediate holds the one value that
  is part of the encoding byte.\<close>

definition int_enc_fits :: "byte \<Rightarrow> int \<Rightarrow> bool" where
  "int_enc_fits enc v =
     (if enc = ZIP_INT_8B then - 128 \<le> v \<and> v \<le> 127
      else if enc = ZIP_INT_16B then - 32768 \<le> v \<and> v \<le> 32767
      else if enc = ZIP_INT_24B then - 8388608 \<le> v \<and> v \<le> 8388607
      else if enc = ZIP_INT_32B then - 2147483648 \<le> v \<and> v \<le> 2147483647
      else if enc = ZIP_INT_64B then - 9223372036854775808 \<le> v \<and> v \<le> 9223372036854775807
      else 0 \<le> v \<and> v \<le> 12 \<and> enc = ZIP_INT_IMM_MIN + of_int v)"

lemma imm_enc:
  assumes "0 \<le> v" "v \<le> 12"
  shows "(241::byte) \<le> 241 + of_int v" "(241::byte) + of_int v \<le> 253"
    "int (unat ((241 + of_int v :: byte) AND 15)) - 1 = v"
    "(241::byte) + of_int v \<noteq> 254" "(241::byte) + of_int v \<noteq> 192"
    "(241::byte) + of_int v \<noteq> 240" "(241::byte) + of_int v \<noteq> 208"
    "(241::byte) + of_int v \<noteq> 224"
proof -
  from assms have "v = 0 \<or> v = 1 \<or> v = 2 \<or> v = 3 \<or> v = 4 \<or> v = 5 \<or> v = 6 \<or> v = 7
      \<or> v = 8 \<or> v = 9 \<or> v = 10 \<or> v = 11 \<or> v = 12" by arith
  then show "(241::byte) \<le> 241 + of_int v" "(241::byte) + of_int v \<le> 253"
    "int (unat ((241 + of_int v :: byte) AND 15)) - 1 = v"
    "(241::byte) + of_int v \<noteq> 254" "(241::byte) + of_int v \<noteq> 192"
    "(241::byte) + of_int v \<noteq> 240" "(241::byte) + of_int v \<noteq> 208"
    "(241::byte) + of_int v \<noteq> 224"
    by auto
qed

text \<open>
  C10. For each of the encodings i8, i16, i24, i32, i64 and imm4 and each value in the
  range of the encoding, \<open>zipSaveInteger\<close> succeeds wherever the payload fits into the
  allocation, and \<open>zipLoadInteger\<close> under the same encoding then gives the value back;
  the 3-byte payload of i24 is sign-extended.
\<close>

theorem zipSaveInteger_zipLoadInteger:
  assumes fit: "int_enc_fits enc v" and room: "p + zipIntSize enc \<le> length zl"
  shows "\<exists>zl'. zipSaveInteger zl p v enc = Some zl' \<and> length zl' = length zl
               \<and> zipLoadInteger zl' p enc = Some v"
proof -
  consider (b8) "enc = 254" | (b16) "enc = 192" | (b24) "enc = 240" | (b32) "enc = 208"
    | (b64) "enc = 224"
    | (imm) "enc \<noteq> 254" "enc \<noteq> 192" "enc \<noteq> 240" "enc \<noteq> 208" "enc \<noteq> 224"
    by blast
  then show ?thesis
  proof cases
    case b8
    with room obtain zl' where w: "wr zl p [of_int v] = Some zl'"
      using wr_ok[of p "[of_int v]" zl] by (auto simp: zipIntSize_def)
    from fit b8 have "sint (of_int v :: byte) = v"
      by (simp add: int_enc_fits_def sint_of_int_byte)
    with w b8 show ?thesis
      by (simp add: zipSaveInteger_def zipLoadInteger_def rd_wr_same[OF w] length_wr[OF w])
  next
    case b16
    with room obtain zl' where w: "wr zl p (le_int 2 v) = Some zl'"
      using wr_ok[of p "le_int 2 v" zl] by (auto simp: zipIntSize_def)
    from fit b16 have "sint_n 16 (v mod 256 ^ 2) = v"
      using sint_n_mod[of 16 v] by (simp add: int_enc_fits_def)
    with w b16 show ?thesis
      using rdn_wr_same[OF w] unle_le_int[of 2 v]
      by (simp add: zipSaveInteger_def zipLoadInteger_def length_wr[OF w]
            del: le_int.simps unle_Cons)
  next
    case b32
    with room obtain zl' where w: "wr zl p (le_int 4 v) = Some zl'"
      using wr_ok[of p "le_int 4 v" zl] by (auto simp: zipIntSize_def)
    from fit b32 have "sint_n 32 (v mod 256 ^ 4) = v"
      using sint_n_mod[of 32 v] by (simp add: int_enc_fits_def)
    with w b32 show ?thesis
      using rdn_wr_same[OF w] unle_le_int[of 4 v]
      by (simp add: zipSaveInteger_def zipLoadInteger_def length_wr[OF w]
            del: le_int.simps unle_Cons)
  next
    case b64
    with room obtain zl' where w: "wr zl p (le_int 8 v) = Some zl'"
      using wr_ok[of p "le_int 8 v" zl] by (auto simp: zipIntSize_def)
    from fit b64 have "sint_n 64 (v mod 256 ^ 8) = v"
      using sint_n_mod[of 64 v] by (simp add: int_enc_fits_def)
    with w b64 show ?thesis
      using rdn_wr_same[OF w] unle_le_int[of 8 v]
      by (simp add: zipSaveInteger_def zipLoadInteger_def length_wr[OF w]
            del: le_int.simps unle_Cons)
  next
    case b24
    from fit b24 have r: "- 8388608 \<le> v" "v \<le> 8388607" by (simp_all add: int_enc_fits_def)
    then have i32: "sint_n 32 (v * 256) = v * 256" using sint_n_id[of 32 "v * 256"] by simp
    from b24 room obtain zl' where w: "wr zl p (le_int 3 v) = Some zl'"
      using wr_ok[of p "le_int 3 v" zl] by (auto simp: zipIntSize_def)
    have "int (unle (0 # le_int 3 v)) = 256 * (v mod 256 ^ 3)"
      using unle_le_int[of 3 v] by (simp del: le_int.simps)
    also have "\<dots> = (256 * v) mod (256 * 16777216)"
      by (simp only: power_numeral mult_mod_right) simp
    also have "\<dots> = (v * 256) mod 2 ^ 32" by (simp add: mult.commute)
    finally have "sint_n 32 (int (unle (0 # le_int 3 v))) = v * 256"
      using sint_n_mod[of 32 "v * 256"] r by simp
    with w b24 i32 show ?thesis
      using rdn_wr_same[OF w]
      by (simp add: zipSaveInteger_def zipLoadInteger_def length_wr[OF w]
            del: le_int.simps unle_Cons)
  next
    case imm
    with fit have r: "0 \<le> v" "v \<le> 12" "enc = 241 + of_int v"
      by (simp_all add: int_enc_fits_def)
    show ?thesis using imm imm_enc[OF r(1,2)] r(3)
      by (simp add: zipSaveInteger_def zipLoadInteger_def)
  qed
qed

theorem zipSaveInteger_zipLoadInteger_witness:
  "int_enc_fits ZIP_INT_24B (- 8388608) \<and> 1 + zipIntSize ZIP_INT_24B \<le> length [7, 7, 7, 7, 7 :: byte]
   \<and> (\<exists>zl'. zipSaveInteger [7, 7, 7, 7, 7] 1 (- 8388608) ZIP_INT_24B = Some zl'
          \<and> length zl' = length [7, 7, 7, 7, 7 :: byte]
          \<and> zipLoadInteger zl' 1 ZIP_INT_24B = Some (- 8388608))"
  using zipSaveInteger_zipLoadInteger[of ZIP_INT_24B "- 8388608" 1 "[7, 7, 7, 7, 7]"]
  by (simp add: int_enc_fits_def zipIntSize_def)

section \<open>Counting and indexing\<close>

text \<open>A list of three entries for the examples: the integer 1024 in two bytes, the string
  \<open>a\<close>, and an integer in eight bytes.\<close>

definition ex_es :: "ent list" where
  "ex_es = [(False, 0, [192, 0, 4]), (False, 4, [1, 97]), (False, 3, [224, 1, 2, 3, 4, 5, 6, 7, 8])]"

definition ex_zl :: "nat \<Rightarrow> nat \<Rightarrow> blob" where
  "ex_zl c0 c1 = [28, 0, 0, 0, 17, 0, 0, 0, of_nat c0, of_nat c1,
                0, 192, 0, 4,  4, 1, 97,  3, 224, 1, 2, 3, 4, 5, 6, 7, 8,  255]"

lemma ex_es_spec: "list_all ent_spec ex_es" "chain 0 ex_es" "length (ebs ex_es) = 17" "length ex_es = 3"
  by (simp_all add: ex_es_def ent_spec_def body_spec_def eb_def pv_def)

lemma ex_es_blob: "zl_of 65535 ex_es = ex_zl 255 255" "zl_of 3 ex_es = ex_zl 3 0"
  by (simp_all add: ex_es_def ex_zl_def zl_of_def hdr_def le32_def le16_def tailpos_def eb_def pv_def)

lemma ex_es_pos: "pos ex_es 0 = 10" "pos ex_es 1 = 14" "pos ex_es 2 = 17"
  by (simp_all add: ex_es_def pos_def eb_def pv_def eval_nat_numeral)

text \<open>
  C7. The count field saturates: \<open>ZIPLIST_INCR_LENGTH\<close> adds one below \<open>0xFFFF\<close> and leaves
  \<open>0xFFFF\<close> as it is. \<open>ziplistLen\<close> answers from the field when the field is below \<open>0xFFFF\<close>,
  and walks the entries exactly when the field is \<open>0xFFFF\<close>; the walk gives the number of
  entries, however many there are (and writes it back when it is below \<open>0xFFFF\<close>). The
  entries are any entries of the spec's layout, strings and integers.
\<close>

theorem ziplistLen_saturation:
  assumes "c < 65536" "list_all ent_spec es" "11 + length (ebs es) < 4294967296"
  shows "ZIPLIST_INCR_LENGTH (zl_of c es) 1 = Some (zl_of (if c < 65535 then c + 1 else c) es)
     \<and> ziplistLen (zl_of c es) =
         Some (if c < 65535 then c else length es,
               if c < 65535 \<or> 65535 \<le> length es then zl_of c es else zl_of (length es) es)"
proof -
  have "incr_count c 1 = (if c < 65535 then c + 1 else c)"
    by (simp add: incr_count_def nat_add_distrib)
  then have "ZIPLIST_INCR_LENGTH (zl_of c es) 1 = Some (zl_of (if c < 65535 then c + 1 else c) es)"
    unfolding zl_of_def using H_incr[OF assms(1), of "11 + length (ebs es)" "tailpos es" "ebs es @ [255]" 1]
    by simp
  then show ?thesis using ziplistLen_zl_of[OF assms(1) list_spec_ok[OF assms(2)] assms(3)] by simp
qed

theorem ziplistLen_saturation_witness:
  "(65535::nat) < 65536 \<and> list_all ent_spec ex_es \<and> 11 + length (ebs ex_es) < (4294967296::nat)
   \<and> zl_of 65535 ex_es = [28, 0, 0, 0, 17, 0, 0, 0, 255, 255,
                         0, 192, 0, 4,  4, 1, 97,  3, 224, 1, 2, 3, 4, 5, 6, 7, 8,  255]
   \<and> ZIPLIST_INCR_LENGTH [28, 0, 0, 0, 17, 0, 0, 0, 255, 255,
                           0, 192, 0, 4,  4, 1, 97,  3, 224, 1, 2, 3, 4, 5, 6, 7, 8,  255] 1
        = Some [28, 0, 0, 0, 17, 0, 0, 0, 255, 255,
                0, 192, 0, 4,  4, 1, 97,  3, 224, 1, 2, 3, 4, 5, 6, 7, 8,  255]
   \<and> ziplistLen [28, 0, 0, 0, 17, 0, 0, 0, 255, 255,
                  0, 192, 0, 4,  4, 1, 97,  3, 224, 1, 2, 3, 4, 5, 6, 7, 8,  255]
        = Some (3, [28, 0, 0, 0, 17, 0, 0, 0, 3, 0,
                    0, 192, 0, 4,  4, 1, 97,  3, 224, 1, 2, 3, 4, 5, 6, 7, 8,  255])"
  using ziplistLen_saturation[of 65535 ex_es] ex_es_spec ex_es_blob
  by (simp add: ex_zl_def)

text \<open>
  C8. On a well-formed ziplist with \<open>n\<close> entries, \<open>ziplistIndex\<close> gives a pointer exactly
  for \<open>-n \<le> i \<le> n-1\<close>: the entry \<open>i\<close> from the head, or the entry \<open>n+i\<close> for a negative
  \<open>i\<close>; for every other index, and for every index on an empty list, it gives \<open>NULL\<close>.
  The function only reads: it has no blob among its results. Well-formed is \<open>wf\<close>: entries
  of the spec's layout, each with the length of the entry before it in its \<open>prevLen\<close> field.
\<close>

theorem ziplistIndex_range:
  assumes "wf c es"
  shows "ziplistIndex (zl_of c es) i =
     Some (if - int (length es) \<le> i \<and> i < int (length es)
           then Some (pos es (nat (if i < 0 then int (length es) + i else i))) else None)"
proof -
  from assms have a: "list_all ent_ok es" "chain 0 es" "11 + length (ebs es) < 4294967296"
    by (simp_all add: wf_def list_spec_ok)
  show ?thesis using ziplistIndex_zl_of[OF a, of c i] by auto
qed

theorem ziplistIndex_range_witness:
  "wf 3 ex_es
   \<and> zl_of 3 ex_es = [28, 0, 0, 0, 17, 0, 0, 0, 3, 0,
                     0, 192, 0, 4,  4, 1, 97,  3, 224, 1, 2, 3, 4, 5, 6, 7, 8,  255]
   \<and> map (ziplistIndex [28, 0, 0, 0, 17, 0, 0, 0, 3, 0,
                         0, 192, 0, 4,  4, 1, 97,  3, 224, 1, 2, 3, 4, 5, 6, 7, 8,  255])
          [- 4, - 3, - 2, - 1, 0, 1, 2, 3]
      = [Some None, Some (Some 10), Some (Some 14), Some (Some 17),
         Some (Some 10), Some (Some 14), Some (Some 17), Some None]"
proof -
  have w: "wf 3 ex_es" using ex_es_spec by (simp add: wf_def)
  show ?thesis
    using ziplistIndex_range[OF w, of "- 4"] ziplistIndex_range[OF w, of "- 3"]
      ziplistIndex_range[OF w, of "- 2"] ziplistIndex_range[OF w, of "- 1"]
      ziplistIndex_range[OF w, of 0] ziplistIndex_range[OF w, of 1]
      ziplistIndex_range[OF w, of 2] ziplistIndex_range[OF w, of 3]
      w ex_es_spec(4) ex_es_blob ex_es_pos
    by (simp add: ex_zl_def)
qed

section \<open>Bodies of new entries\<close>

text \<open>The bytes that \<open>__ziplistInsert\<close> writes after the \<open>prevLen\<close> field: the
  encoding with the length, then the payload.\<close>

definition int_payload :: "int \<Rightarrow> byte \<Rightarrow> blob" where
  "int_payload v enc =
     (if enc = ZIP_INT_8B then [of_int v]
      else if enc = ZIP_INT_16B then le_int 2 v
      else if enc = ZIP_INT_24B then le_int 3 (sint_n 32 (v * 256) div 256)
      else if enc = ZIP_INT_32B then le_int 4 v
      else if enc = ZIP_INT_64B then le_int 8 v
      else [])"

definition val_body :: "blob \<Rightarrow> blob" where
  "val_body s =
     (case zipTryEncoding s of
        Some (v, enc) \<Rightarrow> enc # int_payload v enc
      | None \<Rightarrow> zipEncodeLength 0 (length s) @ s)"

lemma byte_and_255: "(b::byte) AND 255 = b"
proof -
  have "(255::byte) = - 1" by simp
  then show ?thesis by (simp only: and.right_neutral)
qed

lemma unat_64_or: "unat ((64::byte) OR (x AND 63)) = 64 + unat x mod 64"
proof -
  have "unat ((64::byte) OR (x AND 63)) = push_bit 6 1 OR (unat x mod 64)"
    by (simp add: unsigned_or_eq unat_and_63)
  also have "\<dots> = 1 * 2 ^ 6 + unat x mod 64" by (rule push_or_add) simp
  finally show ?thesis by simp
qed

lemma zipEncodeLength_str:
  "zipEncodeLength 0 n =
     (if n \<le> 63 then [of_nat n]
      else if n \<le> 16383 then [64 OR (of_nat (n div 256) AND 63), of_nat n]
      else [128, of_nat (n div 16777216), of_nat (n div 65536), of_nat (n div 256), of_nat n])"
  by (simp add: zipEncodeLength_def ZIP_IS_STR_iff byte_and_255)

lemma imm_cases:
  assumes "0 \<le> v" "v \<le> 12"
  shows "(241::byte) + of_int v \<in> {241,242,243,244,245,246,247,248,249,250,251,252,253}"
proof -
  from assms have "v = 0 \<or> v = 1 \<or> v = 2 \<or> v = 3 \<or> v = 4 \<or> v = 5 \<or> v = 6 \<or> v = 7
      \<or> v = 8 \<or> v = 9 \<or> v = 10 \<or> v = 11 \<or> v = 12" by arith
  then show ?thesis by auto
qed

lemma zipTryEncoding_enc:
  assumes "zipTryEncoding s = Some (v, enc)"
  shows "enc \<in> {254, 192, 240, 208, 224, 241,242,243,244,245,246,247,248,249,250,251,252,253}"
  using assms imm_cases[of v]
  by (auto simp: zipTryEncoding_def split: if_splits option.splits)

lemma int_enc_facts:
  assumes "enc \<in> {254, 192, 240, 208, 224, 241,242,243,244,245,246,247,248,249,250,251,252,253::byte}"
  shows "\<not> ZIP_IS_STR enc" "(192::byte) \<le> enc" "enc \<noteq> 255" "zipEncodeLength enc n = [enc]"
    "zipIntSize enc = length (int_payload v enc)"
    "p + zipIntSize enc \<le> length zl \<Longrightarrow> zipSaveInteger zl p v enc = wr zl p (int_payload v enc)"
proof -
  show 1: "\<not> ZIP_IS_STR enc" using assms by (auto simp: ZIP_IS_STR_iff)
  show "(192::byte) \<le> enc" using assms by auto
  show "enc \<noteq> 255" using assms by auto
  show "zipEncodeLength enc n = [enc]" using 1 by (simp add: zipEncodeLength_def)
  show "zipIntSize enc = length (int_payload v enc)"
    using assms by (auto simp: zipIntSize_def int_payload_def)
  show "p + zipIntSize enc \<le> length zl \<Longrightarrow> zipSaveInteger zl p v enc = wr zl p (int_payload v enc)"
    using assms by (auto simp: zipIntSize_def int_payload_def zipSaveInteger_def wr_def Let_def)
qed

lemma body_ok_int:
  assumes "enc \<in> {254, 192, 240, 208, 224, 241,242,243,244,245,246,247,248,249,250,251,252,253::byte}"
  shows "body_ok (enc # int_payload v enc)" "b_enc (enc # int_payload v enc) = enc"
    "b_lsz (enc # int_payload v enc) = 1"
proof -
  have r: "rd (enc # int_payload v enc) 0 = Some enc" by (simp add: rd_def)
  have d: "ZIP_DECODE_LENGTH (enc # int_payload v enc) 0 = Some (enc, 1, zipIntSize enc)"
    by (rule DL_int[OF r int_enc_facts(2)[OF assms]])
  show "body_ok (enc # int_payload v enc)"
    using d int_enc_facts(5)[OF assms, of v] by (simp add: body_ok_def)
  show "b_enc (enc # int_payload v enc) = enc" using d by (simp add: b_enc_def)
  show "b_lsz (enc # int_payload v enc) = 1" using d by (simp add: b_lsz_def)
qed

lemma DL_str:
  assumes "n < 4294967296"
  shows "ZIP_DECODE_LENGTH (zipEncodeLength 0 n @ s) 0 =
     Some (if n \<le> 63 then 0 else if n \<le> 16383 then 64 else 128, length (zipEncodeLength 0 n), n)"
proof -
  consider (a) "n \<le> 63" | (b) "63 < n" "n \<le> 16383" | (c) "16383 < n" by linarith
  then show ?thesis
  proof cases
    case a
    let ?y = "of_nat n :: byte"
    have u: "unat ?y = n" using a by (simp add: unat_of_nat)
    then have lt: "?y < 64" using a by (simp add: word_less_nat_alt)
    have "rd (?y # s) 0 = Some ?y" by (simp add: rd_def)
    from DL_06[OF this lt] u a show ?thesis by (simp add: zipEncodeLength_str)
  next
    case b
    let ?y = "64 OR (of_nat (n div 256) AND 63) :: byte"
    have d: "n div 256 < 64" using b by simp
    have u: "unat ?y = 64 + n div 256" using d by (simp add: unat_64_or unat_of_nat)
    have r: "64 \<le> ?y" "?y < 128" using u d by (simp_all add: word_less_nat_alt word_le_nat_alt)
    have r0: "rd (?y # of_nat n # s) 0 = Some ?y" by (simp add: rd_def)
    have r1: "rd (?y # of_nat n # s) (0 + 1) = Some (of_nat n)" by (simp add: rd_def)
    from DL_14_intro[OF r0 r r1] u b show ?thesis
      by (simp add: zipEncodeLength_str unat_of_nat)
  next
    case c
    let ?z = "128 # of_nat (n div 16777216) # of_nat (n div 65536) # of_nat (n div 256) # of_nat n # s :: blob"
    have r0: "rd ?z 0 = Some 128" by (simp add: rd_def)
    have r1: "rd ?z (0 + 1) = Some (of_nat (n div 16777216))" by (simp add: rd_def)
    have r2: "rd ?z (0 + 2) = Some (of_nat (n div 65536))" by (simp add: rd_def)
    have r3: "rd ?z (0 + 3) = Some (of_nat (n div 256))" by (simp add: rd_def)
    have r4: "rd ?z (0 + 4) = Some (of_nat n)" by (simp add: rd_def)
    have "unle (le32 n) = n" by (rule unle_le32[OF assms])
    then have "be32 (of_nat (n div 16777216)) (of_nat (n div 65536)) (of_nat (n div 256)) (of_nat n) = n"
      by (simp add: be32_def le32_def)
    with DL_32_intro[OF r0 _ _ r1 r2 r3 r4] c show ?thesis
      by (simp add: zipEncodeLength_str)
  qed
qed

lemma body_ok_str:
  assumes "length s < 4294967296"
  shows "body_ok (zipEncodeLength 0 (length s) @ s)"
    "b_len (zipEncodeLength 0 (length s) @ s) = length s"
    "b_lsz (zipEncodeLength 0 (length s) @ s) = length (zipEncodeLength 0 (length s))"
    "ZIP_IS_STR (b_enc (zipEncodeLength 0 (length s) @ s))"
  using DL_str[OF assms, of s]
  by (simp_all add: body_ok_def b_len_def b_lsz_def b_enc_def ZIP_IS_STR_iff)

lemma body_ok_val: "length s < 4294967296 \<Longrightarrow> body_ok (val_body s)"
  using body_ok_str(1)[of s] body_ok_int(1)[OF zipTryEncoding_enc]
  by (auto simp: val_body_def split: option.splits)


section \<open>The cascade update on well-formed entries\<close>

text \<open>\<open>cascade_spec l es\<close> is what \<open>__ziplistCascadeUpdate\<close> makes of the entries \<open>es\<close>
  that follow an entry of \<open>l\<close> bytes.\<close>

fun cascade_spec :: "nat \<Rightarrow> ent list \<Rightarrow> ent list" where
  "cascade_spec l [] = []"
| "cascade_spec l ((lg, pl, b) # rest) =
     (if pl = l then (lg, pl, b) # rest
      else if \<not> lg \<and> 254 \<le> l then (True, l, b) # cascade_spec (5 + length b) rest
      else (lg, l, b) # rest)"

lemma zipPrevEncodeLength_pv: "zipPrevEncodeLength l = pv (254 \<le> l) l"
  by (simp add: zipPrevEncodeLength_def pv_def)

lemma zipPrevEncodeLengthForceLarge_pv: "zipPrevEncodeLengthForceLarge l = pv True l"
  by (simp add: zipPrevEncodeLengthForceLarge_def pv_def)

lemma memmove_at:
  assumes "rdn zl (nat src) (nat n) = Some M" "wr zl (nat dst) M = Some zl'" "0 \<le> n" "0 \<le> src" "0 \<le> dst"
  shows "memmove zl dst src n = Some zl'"
  using assms by (simp add: memmove_def)

text \<open>Resizing by \<open>k\<close> more bytes: the old terminator and \<open>k - 1\<close> fresh bytes, then the
  new terminator.\<close>

definition fresh :: "nat \<Rightarrow> blob" where
  "fresh k = butlast (255 # replicate k 0)"

lemma length_fresh [simp]: "length (fresh k) = k"
  by (simp add: fresh_def)

lemma H_resize_grow:
  assumes "L = 11 + length E" "L + k < 4294967296"
  shows "ziplistResize (hdr L t c @ E @ [255]) (int L + int k) = Some (hdr (L + k) t c @ E @ fresh k @ [255])"
proof -
  have "ziplistResize (hdr L t c @ E @ [255]) (int (L + k)) =
     Some (hdr (L + k) t c @ butlast (take (L + k - 10) (E @ [255]) @ replicate (L + k - 10 - length (E @ [255])) 0) @ [255])"
    using assms by (intro H_resize) auto
  moreover have "take (L + k - 10) (E @ [255]) = E @ [255::byte]" using assms by simp
  moreover have "L + k - 10 - length (E @ [255::byte]) = k" using assms by simp
  ultimately show ?thesis using assms(1) by (auto simp add: fresh_def butlast_append simp del: take_append)
qed

lemma cascade_stop_end:
  assumes "zl = hdr L t c @ X @ eb (lg, pl, b) @ [255]" "p = 10 + length X" "ent_ok (lg, pl, b)"
    "length (eb (lg, pl, b)) < 4294967296"
  shows "cascade_loop zl p L' = Some zl"
proof -
  let ?A = "hdr L t c @ X"
  have z: "zl = ?A @ eb (lg, pl, b) @ [255]" using assms(1) by simp
  have p: "p = length ?A" using assms(2) by simp
  from rd_eb_at[OF p assms(3), of "[255]"] obtain x where x: "rd zl p = Some x" "x \<noteq> 255"
    unfolding z by blast
  have e: "zipEntry zl p = Some \<lparr> prevrawlensize = (if lg then 5 else 1), prevrawlen = pl, lensize = b_lsz b, vallen = b_len b,
            headersize = (if lg then 5 else 1) + b_lsz b,  encoding = b_enc b, ptr = p \<rparr>"
    unfolding z by (rule zipEntry_at[OF p assms(3)])
  have bl: "b_lsz b + b_len b = length b" using assms(3) body_ok_D[of b] by (simp add: ent_ok_def)
  then have rl: "u32 ((if lg then 5 else 1) + b_lsz b + b_len b) = length (eb (lg, pl, b))"
    using assms(4) by (simp add: u32_def length_eb add.assoc)
  have "rd ((?A @ eb (lg, pl, b)) @ 255 # []) (p + length (eb (lg, pl, b))) = Some 255"
    by (rule rd_at) (use p in simp)
  then have n: "rd zl (p + length (eb (lg, pl, b))) = Some 255" unfolding z by simp
  show ?thesis
    by (subst cascade_loop.simps) (simp add: x e rl n Let_def)
qed


lemma two_entries:
  fixes R :: blob
  assumes z: "zl = hdr L t c @ X @ eb (lg, pl, b) @ eb (lg', pl', b') @ R" and p: "p = 10 + length X"
    and ok: "ent_ok (lg, pl, b)" "ent_ok (lg', pl', b')"
    and len: "length (eb (lg, pl, b)) < 4294967296"
  defines "l \<equiv> length (eb (lg, pl, b))"
  shows "\<exists>x. rd zl p = Some x \<and> x \<noteq> 255"
    and "\<exists>e. zipEntry zl p = Some e \<and> u32 (headersize e + vallen e) = l"
    and "\<exists>x. rd zl (p + l) = Some x \<and> x \<noteq> 255"
    and "zipEntry zl (p + l) = Some \<lparr> prevrawlensize = (if lg' then 5 else 1), prevrawlen = pl',
            lensize = b_lsz b', vallen = b_len b', headersize = (if lg' then 5 else 1) + b_lsz b',
            encoding = b_enc b', ptr = p + l \<rparr>"
proof -
  let ?A = "hdr L t c @ X"
  have z1: "zl = ?A @ eb (lg, pl, b) @ (eb (lg', pl', b') @ R)" using z by simp
  have p1: "p = length ?A" using p by simp
  show "\<exists>x. rd zl p = Some x \<and> x \<noteq> 255" unfolding z1 by (rule rd_eb_at[OF p1 ok(1)])
  have bl: "b_lsz b + b_len b = length b" using ok(1) body_ok_D[of b] by (simp add: ent_ok_def)
  have "u32 ((if lg then 5 else 1) + b_lsz b + b_len b) = l"
    using len bl by (simp add: u32_def length_eb add.assoc l_def)
  then show "\<exists>e. zipEntry zl p = Some e \<and> u32 (headersize e + vallen e) = l"
    unfolding z1 using zipEntry_at[OF p1 ok(1), of "eb (lg', pl', b') @ R"] by simp
  let ?B = "hdr L t c @ X @ eb (lg, pl, b)"
  have z2: "zl = ?B @ eb (lg', pl', b') @ R" using z by simp
  have p2: "p + l = length ?B" using p by (simp add: l_def)
  show "\<exists>x. rd zl (p + l) = Some x \<and> x \<noteq> 255" unfolding z2 by (rule rd_eb_at[OF p2 ok(2)])
  show "zipEntry zl (p + l) = Some \<lparr> prevrawlensize = (if lg' then 5 else 1), prevrawlen = pl',
            lensize = b_lsz b', vallen = b_len b', headersize = (if lg' then 5 else 1) + b_lsz b',
            encoding = b_enc b', ptr = p + l \<rparr>"
    unfolding z2 by (rule zipEntry_at[OF p2 ok(2)])
qed

lemma cascade_stop_same:
  fixes R :: blob
  assumes z: "zl = hdr L t c @ X @ eb (lg, pl, b) @ eb (lg', pl', b') @ R" and p: "p = 10 + length X"
    and ok: "ent_ok (lg, pl, b)" "ent_ok (lg', pl', b')"
    and len: "length (eb (lg, pl, b)) < 4294967296"
    and same: "pl' = length (eb (lg, pl, b))"
  shows "cascade_loop zl p L' = Some zl"
proof -
  note f = two_entries[OF z p ok len]
  from f(1) obtain x where x: "rd zl p = Some x" "x \<noteq> 255" by blast
  from f(2) obtain e where e: "zipEntry zl p = Some e" "u32 (headersize e + vallen e) = length (eb (lg, pl, b))" by blast
  from f(3) obtain y where y: "rd zl (p + length (eb (lg, pl, b))) = Some y" "y \<noteq> 255" by blast
  show ?thesis
    by (subst cascade_loop.simps) (simp add: x e y f(4) same Let_def)
qed

lemma cascade_rewrite:
  fixes R :: blob
  assumes z: "zl = hdr L t c @ X @ eb (lg, pl, b) @ eb (lg', pl', b') @ R" and p: "p = 10 + length X"
    and ok: "ent_ok (lg, pl, b)" "ent_ok (lg', pl', b')"
    and len: "length (eb (lg, pl, b)) < 4294967296"
    and l: "l = length (eb (lg, pl, b))"
    and diff: "pl' \<noteq> l"
    and nogrow: "lg' \<or> l < 254"
  shows "cascade_loop zl p L' = Some (hdr L t c @ X @ eb (lg, pl, b) @ eb (lg', l, b') @ R)"
proof -
  note f = two_entries[OF z p ok len, folded l]
  from f(1) obtain x where x: "rd zl p = Some x" "x \<noteq> 255" by blast
  from f(2) obtain e where e: "zipEntry zl p = Some e" "u32 (headersize e + vallen e) = l" by blast
  from f(3) obtain y where y: "rd zl (p + l) = Some y" "y \<noteq> 255" by blast
  let ?B = "hdr L t c @ X @ eb (lg, pl, b)"
  have z2: "zl = ?B @ pv lg' pl' @ (b' @ R)" using z by (simp add: eb_def)
  have p2: "p + l = length ?B" using p by (simp add: l)
  have "wr zl (p + l) (pv lg' l) = Some (?B @ pv lg' l @ (b' @ R))"
    unfolding z2 by (rule wr_at[OF p2]) simp
  then have w: "wr zl (p + l) (pv lg' l) = Some (hdr L t c @ X @ eb (lg, pl, b) @ eb (lg', l, b') @ R)"
    by (simp add: eb_def)
  consider (i) "lg'" "l < 254" | (ii) "lg'" "254 \<le> l" | (iii) "\<not> lg'" "l < 254"
    using nogrow by fastforce
  then show ?thesis
  proof cases
    case i
    then show ?thesis using w diff
      by (subst cascade_loop.simps)
         (simp add: x e y f(4) Let_def zipPrevEncodeLength_pv zipPrevEncodeLengthForceLarge_pv)
  next
    case ii
    then show ?thesis using w diff
      by (subst cascade_loop.simps)
         (simp add: x e y f(4) Let_def zipPrevEncodeLength_pv zipPrevEncodeLengthForceLarge_pv)
  next
    case iii
    then show ?thesis using w diff
      by (subst cascade_loop.simps)
         (simp add: x e y f(4) Let_def zipPrevEncodeLength_pv zipPrevEncodeLengthForceLarge_pv)
  qed
qed


lemma cascade_loop_grow_unfold:
  assumes "rd zl p = Some x" "x \<noteq> 255" "zipEntry zl p = Some e" "u32 (headersize e + vallen e) = l"
    "rd zl (p + l) = Some y" "y \<noteq> 255" "zipEntry zl (p + l) = Some nx" "prevrawlen nx \<noteq> l"
    "prevrawlensize nx = 1" "254 \<le> l"
    "ziplistResize zl (int L + 4) = Some zl1" "ZIPLIST_TAIL_OFFSET zl1 = Some t"
    "(if t \<noteq> p + l then set_ZIPLIST_TAIL_OFFSET zl1 (int t + 4) else Some zl1) = Some zl2"
    "memmove zl2 (int (p + l) + 5) (int (p + l) + 1) (int L - int (p + l) - 2) = Some zl3"
    "wr zl3 (p + l) (pv True l) = Some zl4"
  shows "cascade_loop zl p L = cascade_loop zl4 (p + l) (L + 4)"
  using assms
  by (subst cascade_loop.simps) (auto simp add: Let_def zipPrevEncodeLength_pv split: if_splits)

lemma cascade_grow:
  fixes R :: blob
  assumes z: "zl = hdr L t c @ X @ eb (lg, pl, b) @ eb (False, pl', b') @ R @ [255]"
    and p: "p = 10 + length X"
    and ok: "ent_ok (lg, pl, b)" "ent_ok (False, pl', b')"
    and l: "l = length (eb (lg, pl, b))"
    and L: "L = 11 + length X + l + (1 + length b') + length R"
    and bound: "L + 4 < 4294967296" "t \<le> L"
    and diff: "pl' \<noteq> l"
    and grow: "254 \<le> l"
  shows "cascade_loop zl p L =
     cascade_loop (hdr (L + 4) (if t \<noteq> p + l then t + 4 else t) c @ X @ eb (lg, pl, b)
                    @ eb (True, l, b') @ R @ [255]) (p + l) (L + 4)"
proof -
  have len: "length (eb (lg, pl, b)) < 4294967296" using L bound l by simp
  note f = two_entries[OF z p ok len, folded l]
  from f(1) obtain x where x: "rd zl p = Some x" "x \<noteq> 255" by blast
  from f(2) obtain e where e: "zipEntry zl p = Some e" "u32 (headersize e + vallen e) = l" by blast
  from f(3) obtain y where y: "rd zl (p + l) = Some y" "y \<noteq> 255" by blast
  define t' where "t' = (if t \<noteq> p + l then t + 4 else t)"
  define M where "M = b' @ R"
  obtain pb where pb: "pv False pl' = [pb]" by (simp add: pv_def)
  let ?E = "X @ eb (lg, pl, b) @ eb (False, pl', b') @ R"
  have LE: "L = 11 + length ?E" using L l by (simp add: length_eb)
  have r1: "ziplistResize zl (int L + int 4) = Some (hdr (L + 4) t c @ ?E @ fresh 4 @ [255])"
    unfolding z using H_resize_grow[OF LE bound(1), of t c] by simp
  define zl1 where "zl1 = hdr (L + 4) t c @ ?E @ fresh 4 @ [255]"
  have r2: "ZIPLIST_TAIL_OFFSET zl1 = Some t" unfolding zl1_def using bound by (intro H_tail) simp
  define zl2 where "zl2 = hdr (L + 4) t' c @ ?E @ fresh 4 @ [255]"
  have r3: "(if t \<noteq> p + l then set_ZIPLIST_TAIL_OFFSET zl1 (int t + int 4) else Some zl1) = Some zl2"
    unfolding zl1_def zl2_def t'_def
    using H_set_tail[of "int t + 4" "L + 4" t c "?E @ fresh 4 @ [255]"] bound
    by (simp add: nat_add_distrib)
  let ?P = "hdr (L + 4) t' c @ X @ eb (lg, pl, b)"
  have np: "p + l = length ?P" using p l by simp
  have v1: "zl2 = (?P @ [pb]) @ M @ (fresh 4 @ [255])"
    unfolding zl2_def M_def using pb by (simp add: eb_def)
  have rd: "rdn zl2 (p + l + 1) (length M) = Some M"
    unfolding v1 by (rule rdn_at) (use np in simp_all)
  define W where "W = [pb] @ M @ fresh 4"
  have W: "W = take 5 W @ drop 5 W" by simp
  have lW: "length (take 5 W) = 5" "length (drop 5 W) = length M" by (simp_all add: W_def)
  have v2: "zl2 = (?P @ take 5 W) @ drop 5 W @ [255]"
    using v1 W by (simp add: W_def del: append_take_drop_id take_append drop_append) 
  have w1: "wr zl2 (p + l + 5) M = Some ((?P @ take 5 W) @ M @ [255])"
    unfolding v2 by (rule wr_at) (use np lW in \<open>simp_all del: length_take length_drop\<close>)
  define zl3 where "zl3 = ?P @ take 5 W @ (M @ [255])"
  have mm': "memmove zl2 (int (p + l) + 5) (int (p + l) + 1) (int L - int (p + l) - 2) = Some zl3"
  proof (rule memmove_at)
    have n: "nat (int L - int (p + l) - 2) = length M" using L p by (simp add: M_def)
    have s: "nat (int (p + l) + 1) = p + l + 1" "nat (int (p + l) + 5) = p + l + 5" by linarith+
    show "rdn zl2 (nat (int (p + l) + 1)) (nat (int L - int (p + l) - 2)) = Some M"
      unfolding n s by (rule rd)
    show "wr zl2 (nat (int (p + l) + 5)) M = Some zl3"
      unfolding s using w1 by (simp add: zl3_def)
    show "0 \<le> int L - int (p + l) - 2" using L p by simp
  qed simp_all
  have w2: "wr zl3 (p + l) (pv True l) = Some (?P @ pv True l @ (M @ [255]))"
    unfolding zl3_def by (rule wr_at[OF np]) (simp add: lW del: length_take)
  have fin: "?P @ pv True l @ (M @ [255]) = hdr (L + 4) t' c @ X @ eb (lg, pl, b) @ eb (True, l, b') @ R @ [255]"
    by (simp add: M_def eb_def)
  have sz: "zipPrevEncodeLength l = pv True l" using grow by (simp add: zipPrevEncodeLength_pv)
  have r1': "ziplistResize zl (int L + 4) = Some zl1" using r1 by (simp add: zl1_def)
  have r3': "(if t \<noteq> p + l then set_ZIPLIST_TAIL_OFFSET zl1 (int t + 4) else Some zl1) = Some zl2"
    using r3 by (auto split: if_splits)
  have "cascade_loop zl p L = cascade_loop (?P @ pv True l @ (M @ [255])) (p + l) (L + 4)"
    by (rule cascade_loop_grow_unfold[OF x e y f(4) _ _ grow r1' r2 r3' mm' w2]) (simp_all add: diff)
  then have "cascade_loop zl p L =
     cascade_loop (hdr (L + 4) t' c @ X @ eb (lg, pl, b) @ eb (True, l, b') @ R @ [255]) (p + l) (L + 4)"
    unfolding fin .
  then show ?thesis unfolding t'_def .
qed


lemma length_eb_pl: "length (eb (lg, pl, b)) = length (eb (lg, pl', b))"
  by (simp add: length_eb)

lemma butlast_ebs_len:
  "length (ebs (butlast ((lg, pl, b) # rest))) = length (ebs (butlast ((lg, pl', b) # rest)))"
  by (cases rest) (simp_all add: length_eb)

lemma cascade_loop_spec:
  assumes "list_all ent_ok rest" "ent_ok cur"
    "p = 10 + length X" "L = 11 + length X + length (eb cur) + length (ebs rest)"
    "t = p + length (ebs (butlast (cur # rest)))"
    "L + 4 * length rest < 4294967296"
  shows "cascade_loop (hdr L t c @ X @ eb cur @ ebs rest @ [255]) p L =
     Some (hdr (11 + length X + length (eb cur) + length (ebs (cascade_spec (length (eb cur)) rest)))
               (p + length (ebs (butlast (cur # cascade_spec (length (eb cur)) rest)))) c
           @ X @ eb cur @ ebs (cascade_spec (length (eb cur)) rest) @ [255])"
  using assms
proof (induction rest arbitrary: X cur p L t)
  case Nil
  obtain lg pl b where cur: "cur = (lg, pl, b)" by (cases cur) auto
  have "cascade_loop (hdr L t c @ X @ eb (lg, pl, b) @ [255]) p L = Some (hdr L t c @ X @ eb (lg, pl, b) @ [255])"
    by (rule cascade_stop_end[OF refl Nil(3)]) (use Nil cur in simp_all)
  then show ?case using Nil cur by simp
next
  case (Cons nxt rest)
  obtain lg pl b where cur: "cur = (lg, pl, b)" by (cases cur) auto
  obtain lg' pl' b' where nxt: "nxt = (lg', pl', b')" by (cases nxt) auto
  define l where "l = length (eb (lg, pl, b))"
  have okc: "ent_ok (lg, pl, b)" using Cons.prems cur by simp
  have okn: "ent_ok (lg', pl', b')" using Cons.prems nxt by simp
  have len: "length (eb (lg, pl, b)) < 4294967296" using Cons.prems cur by simp
  let ?zl = "hdr L t c @ X @ eb (lg, pl, b) @ eb (lg', pl', b') @ ebs rest @ [255]"
  have zl: "hdr L t c @ X @ eb cur @ ebs (nxt # rest) @ [255] = ?zl" using cur nxt by simp
  consider (same) "pl' = l" | (grow) "pl' \<noteq> l" "\<not> lg'" "254 \<le> l" | (rewr) "pl' \<noteq> l" "lg' \<or> l < 254"
    by fastforce
  then show ?case
  proof cases
    case same
    have "cascade_loop ?zl p L = Some ?zl"
      by (rule cascade_stop_same[OF refl Cons.prems(3) okc okn len]) (use same l_def in simp)
    then show ?thesis unfolding zl using same cur nxt Cons.prems(4,5) by (simp add: l_def)
  next
    case rewr
    have "cascade_loop ?zl p L = Some (hdr L t c @ X @ eb (lg, pl, b) @ eb (lg', l, b') @ (ebs rest @ [255]))"
      by (rule cascade_rewrite[OF _ Cons.prems(3) okc okn len l_def rewr]) simp
    moreover have "cascade_spec l ((lg', pl', b') # rest) = (lg', l, b') # rest" using rewr by auto
    ultimately show ?thesis unfolding zl using cur nxt Cons.prems(4,5) butlast_ebs_len[of lg' l b' rest pl']
      by (simp add: l_def[symmetric] length_eb_pl[of lg' l b' pl'])
  next
    case grow
    define t' where "t' = (if t \<noteq> p + l then t + 4 else t)"
    have L: "L = 11 + length X + l + (1 + length b') + length (ebs rest)"
      using Cons.prems(4) cur nxt grow by (simp add: l_def length_eb)
    have tL: "t \<le> L"
    proof -
      have "length (ebs (butlast (cur # nxt # rest))) \<le> length (ebs (cur # nxt # rest))"
        using ebs_take_le[of "length (cur # nxt # rest) - 1" "cur # nxt # rest"]
        by (simp only: butlast_conv_take)
      then show ?thesis using Cons.prems(3,4,5) by simp
    qed
    have g: "cascade_loop ?zl p L =
         cascade_loop (hdr (L + 4) t' c @ X @ eb (lg, pl, b) @ eb (True, l, b') @ ebs rest @ [255]) (p + l) (L + 4)"
      unfolding t'_def using grow okn
      by (intro cascade_grow[OF _ Cons.prems(3) okc _ l_def L _ tL grow(1,3)]) (use Cons.prems(6) in simp_all)
    have okn': "ent_ok (True, l, b')" using okn len by (simp add: ent_ok_def l_def)
    have t'eq: "t' = (p + l) + length (ebs (butlast ((True, l, b') # rest)))"
    proof (cases rest)
      case Nil
      then show ?thesis using Cons.prems(5) cur nxt by (simp add: t'_def l_def)
    next
      case (Cons a as)
      then have "t = p + l + length (eb (lg', pl', b')) + length (ebs (butlast rest))"
        using Cons.prems(5) cur nxt by (simp add: l_def)
      then show ?thesis using grow Cons by (simp add: t'_def length_eb)
    qed
    have ih: "cascade_loop (hdr (L + 4) t' c @ (X @ eb (lg, pl, b)) @ eb (True, l, b') @ ebs rest @ [255]) (p + l) (L + 4) =
       Some (hdr (11 + length (X @ eb (lg, pl, b)) + length (eb (True, l, b')) + length (ebs (cascade_spec (length (eb (True, l, b'))) rest)))
               (p + l + length (ebs (butlast ((True, l, b') # cascade_spec (length (eb (True, l, b'))) rest)))) c
           @ (X @ eb (lg, pl, b)) @ eb (True, l, b') @ ebs (cascade_spec (length (eb (True, l, b'))) rest) @ [255])"
      using Cons.prems(1,3,6) okn' L t'eq
      by (intro Cons.IH) (simp_all add: l_def length_eb)
    have cs: "cascade_spec l ((lg', pl', b') # rest) = (True, l, b') # cascade_spec (5 + length b') rest"
      using grow by simp
    have E2: "length (eb (True, l, b')) = 5 + length b'" by (simp add: length_eb)
    show ?thesis unfolding zl g using ih cur nxt cs
      by (simp add: l_def[symmetric] E2 add.assoc)
  qed
qed


section \<open>Inserting into a list of entries\<close>

definition new_ent :: "nat \<Rightarrow> blob \<Rightarrow> ent" where
  "new_ent prevlen s = (254 \<le> prevlen, prevlen, val_body s)"

text \<open>The three values that \<open>__ziplistInsert\<close> derives from \<open>zipTryEncoding\<close>.\<close>

definition try_enc :: "blob \<Rightarrow> nat \<times> byte \<times> int" where
  "try_enc s = (case zipTryEncoding s of
                   Some (v, enc) \<Rightarrow> (zipIntSize enc, enc, v)
                 | None \<Rightarrow> (length s, 0, 123456789))"

lemma try_enc_facts:
  assumes "try_enc s = (r0, enc, v)"
  shows "val_body s = zipEncodeLength enc (length s) @ (if ZIP_IS_STR enc then s else int_payload v enc)"
    and "r0 = length (if ZIP_IS_STR enc then s else int_payload v enc)"
    and "\<not> ZIP_IS_STR enc \<Longrightarrow> i + r0 \<le> length zl \<Longrightarrow> zipSaveInteger zl i v enc = wr zl i (int_payload v enc)"
proof -
  show "val_body s = zipEncodeLength enc (length s) @ (if ZIP_IS_STR enc then s else int_payload v enc)"
  proof (cases "zipTryEncoding s")
    case None
    then show ?thesis using assms by (auto simp: try_enc_def val_body_def ZIP_IS_STR_iff)
  next
    case (Some a)
    then obtain v' enc' where a: "zipTryEncoding s = Some (v', enc')" by (cases a) auto
    note m = zipTryEncoding_enc[OF a]
    show ?thesis using assms a int_enc_facts(1,4)[OF m] by (auto simp: try_enc_def val_body_def)
  qed
  show "r0 = length (if ZIP_IS_STR enc then s else int_payload v enc)"
  proof (cases "zipTryEncoding s")
    case None
    then show ?thesis using assms by (auto simp: try_enc_def ZIP_IS_STR_iff)
  next
    case (Some a)
    then obtain v' enc' where a: "zipTryEncoding s = Some (v', enc')" by (cases a) auto
    note m = zipTryEncoding_enc[OF a]
    show ?thesis using assms a int_enc_facts(1,5)[OF m] by (auto simp: try_enc_def)
  qed
  show "\<not> ZIP_IS_STR enc \<Longrightarrow> i + r0 \<le> length zl \<Longrightarrow> zipSaveInteger zl i v enc = wr zl i (int_payload v enc)"
  proof (cases "zipTryEncoding s")
    case None
    assume "\<not> ZIP_IS_STR enc"
    then show ?thesis using assms None by (auto simp: try_enc_def ZIP_IS_STR_iff)
  next
    case (Some a)
    assume b: "i + r0 \<le> length zl"
    from Some obtain v' enc' where a: "zipTryEncoding s = Some (v', enc')" by (cases a) auto
    note m = zipTryEncoding_enc[OF a]
    show ?thesis using assms a int_enc_facts(6)[OF m, of i zl v'] b by (auto simp: try_enc_def)
  qed
qed

lemma length_new_ent:
  "try_enc s = (r0, enc, v) \<Longrightarrow>
   length (eb (new_ent prevlen s)) = r0 + length (zipPrevEncodeLength prevlen) + length (zipEncodeLength enc (length s))"
  using try_enc_facts(1,2)[of s r0 enc v]
  by (simp add: new_ent_def eb_def zipPrevEncodeLength_pv)

lemma entry_write:
  fixes C :: blob
  assumes te: "try_enc s = (r0, enc, v)" and zl: "zl = A @ G @ C" and p: "p = length A"
    and G: "length G = length (eb (new_ent prevlen s))"
  shows "\<exists>zl7 zl8. wr zl p (zipPrevEncodeLength prevlen) = Some zl7
      \<and> wr zl7 (p + length (zipPrevEncodeLength prevlen)) (zipEncodeLength enc (length s)) = Some zl8
      \<and> (if ZIP_IS_STR enc
          then wr zl8 (p + length (zipPrevEncodeLength prevlen) + length (zipEncodeLength enc (length s))) s
          else zipSaveInteger zl8 (p + length (zipPrevEncodeLength prevlen) + length (zipEncodeLength enc (length s))) v enc)
         = Some (A @ eb (new_ent prevlen s) @ C)"
proof -
  define P where "P = zipPrevEncodeLength prevlen"
  define H where "H = zipEncodeLength enc (length s)"
  define Y where "Y = (if ZIP_IS_STR enc then s else int_payload v enc)"
  have e: "eb (new_ent prevlen s) = P @ H @ Y"
    using try_enc_facts(1)[OF te] by (simp add: new_ent_def eb_def zipPrevEncodeLength_pv P_def H_def Y_def)
  have r0: "r0 = length Y" using try_enc_facts(2)[OF te] by (simp add: Y_def)
  define G1 where "G1 = take (length P) G"
  define G2 where "G2 = take (length H) (drop (length P) G)"
  define G3 where "G3 = drop (length P + length H) G"
  have Gs: "G = G1 @ G2 @ G3" by (simp add: G1_def G2_def G3_def take_add[symmetric] add.commute)
     (metis append_take_drop_id drop_drop add.commute)
  have lG: "length G1 = length P" "length G2 = length H" "length G3 = length Y"
    using G e by (simp_all add: G1_def G2_def G3_def)
  have w1: "wr zl p P = Some (A @ P @ (G2 @ G3 @ C))"
    unfolding zl Gs using wr_at[OF p, of P G1 "G2 @ G3 @ C"] lG by simp
  have w2: "wr (A @ P @ (G2 @ G3 @ C)) (p + length P) H = Some ((A @ P) @ H @ (G3 @ C))"
    using wr_at[of "p + length P" "A @ P" H G2 "G3 @ C"] lG p by simp
  have w3: "wr ((A @ P) @ H @ (G3 @ C)) (p + length P + length H) Y = Some ((A @ P @ H) @ Y @ C)"
    using wr_at[of "p + length P + length H" "A @ P @ H" Y G3 C] lG p by simp
  have s: "\<not> ZIP_IS_STR enc \<Longrightarrow> zipSaveInteger ((A @ P) @ H @ (G3 @ C)) (p + length P + length H) v enc
        = wr ((A @ P) @ H @ (G3 @ C)) (p + length P + length H) (int_payload v enc)"
    by (rule try_enc_facts(3)[OF te]) (use lG p r0 in simp_all)
  have "(if ZIP_IS_STR enc then wr ((A @ P) @ H @ (G3 @ C)) (p + length P + length H) s
         else zipSaveInteger ((A @ P) @ H @ (G3 @ C)) (p + length P + length H) v enc)
       = Some (A @ eb (new_ent prevlen s) @ C)"
    using w3 s e by (auto simp: Y_def)
  then show ?thesis using w1 w2 unfolding P_def H_def by blast
qed


lemma insert_unfold_end:
  assumes "ZIPLIST_BYTES zl = Some L" "rd zl p = Some 255"
    "ZIPLIST_TAIL_OFFSET zl = Some t" "rd zl t = Some tb"
    "(if tb \<noteq> 255 then zipRawEntryLength zl t else Some 0) = Some prevlen"
    "try_enc s = (r0, enc, v)"
    "r = r0 + length (zipPrevEncodeLength prevlen) + length (zipEncodeLength enc (length s))"
    "ziplistResize zl (int L + int r) = Some zl1" "rd zl1 p = Some 255"
    "set_ZIPLIST_TAIL_OFFSET zl1 (int p) = Some zl5"
    "wr zl5 p (zipPrevEncodeLength prevlen) = Some zl7"
    "wr zl7 (p + length (zipPrevEncodeLength prevlen)) (zipEncodeLength enc (length s)) = Some zl8"
    "(if ZIP_IS_STR enc
      then wr zl8 (p + length (zipPrevEncodeLength prevlen) + length (zipEncodeLength enc (length s))) s
      else zipSaveInteger zl8 (p + length (zipPrevEncodeLength prevlen) + length (zipEncodeLength enc (length s))) v enc)
     = Some zl9"
    "ZIPLIST_INCR_LENGTH zl9 1 = Some zl10"
  shows "uu_ziplistInsert zl p s = Some zl10"
  using assms unfolding uu_ziplistInsert_def try_enc_def
  by (auto simp add: Let_def split: if_splits)

lemma insert_unfold_mid:
  assumes "ZIPLIST_BYTES zl = Some L" "rd zl p = Some x" "x \<noteq> 255"
    "ZIP_DECODE_PREVLEN zl p = Some (sz, prevlen)"
    "try_enc s = (r0, enc, v)"
    "r = r0 + length (zipPrevEncodeLength prevlen) + length (zipEncodeLength enc (length s))"
    "zipPrevLenByteDiff zl p (u32 r) = Some d"
    "ziplistResize zl (int L + int r + d) = Some zl1" "rd zl1 p = Some x1" "x1 \<noteq> 255"
    "memmove zl1 (int p + int r) (int p - d) (int L - int p - 1 + d) = Some zl2"
    "wr zl2 (p + r) (zipPrevEncodeLength (u32 r)) = Some zl3"
    "ZIPLIST_TAIL_OFFSET zl3 = Some t" "set_ZIPLIST_TAIL_OFFSET zl3 (int t + int r) = Some zl4"
    "zipEntry zl4 (p + r) = Some tail"
    "rd zl4 (p + (r + headersize tail + vallen tail)) = Some b2"
    "(if b2 \<noteq> 255 then do { t2 \<leftarrow> ZIPLIST_TAIL_OFFSET zl4; set_ZIPLIST_TAIL_OFFSET zl4 (int t2 + d) }
      else Some zl4) = Some zl5"
    "(if d \<noteq> 0 then uu_ziplistCascadeUpdate zl5 (p + r) else Some zl5) = Some zl6"
    "wr zl6 p (zipPrevEncodeLength prevlen) = Some zl7"
    "wr zl7 (p + length (zipPrevEncodeLength prevlen)) (zipEncodeLength enc (length s)) = Some zl8"
    "(if ZIP_IS_STR enc
      then wr zl8 (p + length (zipPrevEncodeLength prevlen) + length (zipEncodeLength enc (length s))) s
      else zipSaveInteger zl8 (p + length (zipPrevEncodeLength prevlen) + length (zipEncodeLength enc (length s))) v enc)
     = Some zl9"
    "ZIPLIST_INCR_LENGTH zl9 1 = Some zl10"
  shows "uu_ziplistInsert zl p s = Some zl10"
  using assms unfolding uu_ziplistInsert_def try_enc_def
  by (auto simp add: Let_def split: if_splits)

definition plen :: "ent list \<Rightarrow> nat" where
  "plen es = (if es = [] then 0 else length (eb (last es)))"

lemma H_set_tail_nat:
  "v < 4294967296 \<Longrightarrow> set_ZIPLIST_TAIL_OFFSET (hdr b t c @ R) (int v) = Some (hdr b v c @ R)"
  using H_set_tail[of "int v" b t c R] by simp

lemma fresh_Cons: "0 < k \<Longrightarrow> fresh k = 255 # replicate (k - 1) 0"
proof -
  assume "0 < k"
  then obtain n where k: "k = Suc n" by (cases k) auto
  have "replicate (Suc n) (0::byte) = replicate n 0 @ [0]" by (simp add: replicate_append_same)
  then have "butlast (255 # replicate (Suc n) (0::byte)) = 255 # replicate n 0"
    by (simp only: butlast.simps butlast_snoc) simp
  then show ?thesis using k by (simp add: fresh_def)
qed

lemma tailpos_snoc [simp]: "tailpos (es @ [e]) = 10 + length (ebs es)"
  by (simp add: tailpos_def)

lemma new_ent_len: "2 \<le> length (eb (new_ent pl s))"
  by (cases "val_body s") (auto simp: new_ent_def eb_def val_body_def zipEncodeLength_str split: option.splits)

lemma insert_end:
  assumes ok: "list_all ent_ok es" and c: "c < 65536"
    and bound: "11 + length (ebs es) + length (eb (new_ent (plen es) s)) < 4294967296"
  shows "uu_ziplistInsert (zl_of c es) (10 + length (ebs es)) s =
           Some (zl_of (incr_count c 1) (es @ [new_ent (plen es) s]))"
proof -
  define L where "L = 11 + length (ebs es)"
  define p where "p = 10 + length (ebs es)"
  define ne where "ne = new_ent (plen es) s"
  define r where "r = length (eb ne)"
  obtain r0 enc v where te: "try_enc s = (r0, enc, v)" by (cases "try_enc s") auto
  let ?H = "hdr L (tailpos es) c"
  have zl: "zl_of c es = ?H @ ebs es @ [255]" by (simp add: zl_of_def L_def)
  have Lb: "L < 4294967296" "L + r < 4294967296" using bound by (simp_all add: L_def r_def ne_def)
  have 1: "ZIPLIST_BYTES (zl_of c es) = Some L" unfolding zl by (rule H_bytes[OF Lb(1)])
  have 2: "rd (zl_of c es) p = Some 255" unfolding zl using rd_end[of ?H es "[]"] by (simp add: pos_def p_def)
  have 3: "ZIPLIST_TAIL_OFFSET (zl_of c es) = Some (tailpos es)"
    unfolding zl using tailpos_lt[of es] Lb by (intro H_tail) (simp add: L_def)
  have 45: "\<exists>tb. rd (zl_of c es) (tailpos es) = Some tb \<and>
       (if tb \<noteq> 255 then zipRawEntryLength (zl_of c es) (tailpos es) else Some 0) = Some (plen es)"
  proof (cases "es = []")
    case True
    then show ?thesis using 2 by (simp add: plen_def p_def)
  next
    case False
    define j where "j = length es - 1"
    have j: "j < length es" using False by (simp add: j_def)
    have tp: "tailpos es = pos es j" using tailpos_pos[OF False] by (simp add: j_def)
    have Lj: "length (ebs es) < 4294967296" using Lb by (simp add: L_def)
    from entry_facts(1)[OF _ ok j Lj, of ?H "[255]"] obtain x where
      x: "rd (zl_of c es) (pos es j) = Some x" "x \<noteq> 255" unfolding zl by auto
    have "zipRawEntryLength (zl_of c es) (pos es j) = Some (length (eb (es ! j)))"
      unfolding zl by (rule entry_facts(2)[OF _ ok j Lj]) simp
    moreover have "es ! j = last es" using False by (simp add: j_def last_conv_nth)
    ultimately show ?thesis using x False by (simp add: tp plen_def)
  qed
  then obtain tb where 4: "rd (zl_of c es) (tailpos es) = Some tb"
    and 5: "(if tb \<noteq> 255 then zipRawEntryLength (zl_of c es) (tailpos es) else Some 0) = Some (plen es)"
    by blast
  have 7: "r = r0 + length (zipPrevEncodeLength (plen es)) + length (zipEncodeLength enc (length s))"
    using length_new_ent[OF te, of "plen es"] by (simp add: r_def ne_def)
  define zl1 where "zl1 = hdr (L + r) (tailpos es) c @ ebs es @ fresh r @ [255]"
  have 8: "ziplistResize (zl_of c es) (int L + int r) = Some zl1"
    unfolding zl zl1_def by (rule H_resize_grow[OF _ Lb(2)]) (simp add: L_def)
  have rpos: "0 < r" using new_ent_len[of "plen es" s] unfolding r_def ne_def by linarith
  have "rd ((hdr (L + r) (tailpos es) c @ ebs es) @ 255 # (replicate (r - 1) 0 @ [255])) p = Some 255"
    by (rule rd_at) (simp add: p_def)
  then have 9: "rd zl1 p = Some 255" using fresh_Cons[OF rpos] by (simp add: zl1_def)
  define zl5 where "zl5 = hdr (L + r) p c @ ebs es @ fresh r @ [255]"
  have 10: "set_ZIPLIST_TAIL_OFFSET zl1 (int p) = Some zl5"
    unfolding zl1_def zl5_def using Lb by (intro H_set_tail_nat) (simp add: p_def L_def)
  have z5: "zl5 = (hdr (L + r) p c @ ebs es) @ fresh r @ [255]" by (simp add: zl5_def)
  from entry_write[OF te z5, of p "plen es"] obtain zl7 zl8 where
    w: "wr zl5 p (zipPrevEncodeLength (plen es)) = Some zl7"
      "wr zl7 (p + length (zipPrevEncodeLength (plen es))) (zipEncodeLength enc (length s)) = Some zl8"
      "(if ZIP_IS_STR enc
          then wr zl8 (p + length (zipPrevEncodeLength (plen es)) + length (zipEncodeLength enc (length s))) s
          else zipSaveInteger zl8 (p + length (zipPrevEncodeLength (plen es)) + length (zipEncodeLength enc (length s))) v enc)
         = Some ((hdr (L + r) p c @ ebs es) @ eb (new_ent (plen es) s) @ [255])"
    by (auto simp: p_def r_def ne_def)
  have 14: "ZIPLIST_INCR_LENGTH ((hdr (L + r) p c @ ebs es) @ eb (new_ent (plen es) s) @ [255]) 1
        = Some (hdr (L + r) p (incr_count c 1) @ ebs es @ eb (new_ent (plen es) s) @ [255])"
    using H_incr[OF c, of "L + r" p "ebs es @ eb (new_ent (plen es) s) @ [255]" 1] by simp
  have fin: "hdr (L + r) p (incr_count c 1) @ ebs es @ eb (new_ent (plen es) s) @ [255]
       = zl_of (incr_count c 1) (es @ [new_ent (plen es) s])"
    by (simp add: zl_of_def L_def r_def ne_def p_def add.assoc)
  have "uu_ziplistInsert (zl_of c es) p s =
      Some (hdr (L + r) p (incr_count c 1) @ ebs es @ eb (new_ent (plen es) s) @ [255])"
    by (rule insert_unfold_end[OF 1 2 3 4 5 te 7 8 9 10 w 14])
  then show ?thesis unfolding fin by (simp add: p_def)
qed

lemma insert_shift:
  fixes Pre V B Rest F N :: blob
  assumes zl1: "zl1 = Pre @ V @ B @ Rest @ F @ [255]"
    and p: "p = length Pre" and L: "L = length Pre + length V + length B + length Rest + 1"
    and src: "src + length N = p + length V"
    and F: "length F + length V = r + length N"
  shows "\<exists>G zl2. length G = r \<and> memmove zl1 (int (p + r)) (int src) (int (L - 1 - src)) = Some zl2
           \<and> wr zl2 (p + r) N = Some (Pre @ G @ N @ B @ Rest @ [255])"
proof -
  define Z where "Z = Pre @ V @ B @ Rest"
  define M where "M = drop src Z"
  define G where "G = take r (drop p zl1)"
  have lZ: "length Z = L - 1" using L by (simp add: Z_def)
  have sL: "src \<le> p + length V" using src by simp
  have lM: "length M = L - 1 - src" by (simp add: M_def lZ)
  have lM': "length M = length N + length B + length Rest" using lM L src p by simp
  have z1: "zl1 = Z @ F @ [255]" by (simp add: zl1 Z_def)
  have lzl1: "length zl1 = L + length F" using L by (simp add: zl1)
  have rd: "rdn zl1 src (L - 1 - src) = Some M"
  proof -
    have "src + (L - 1 - src) \<le> length zl1" using lzl1 sL L p by simp
    moreover have "take (L - 1 - src) (drop src zl1) = M"
      unfolding z1 M_def using lZ sL L p by simp
    ultimately show ?thesis by (simp add: rdn_def)
  qed
  have lG: "length G = r" using F lzl1 L p by (simp add: G_def)
  have tk: "take (p + r) zl1 = Pre @ G"
  proof -
    have "take (p + r) zl1 = take p zl1 @ take r (drop p zl1)" by (simp add: take_add)
    moreover have "take p zl1 = Pre" by (simp add: zl1 p)
    ultimately show ?thesis by (simp add: G_def)
  qed
  have e1: "p + r + length M = L + length F - 1" using lM' L p F by simp
  have w1: "wr zl1 (p + r) M = Some (Pre @ G @ M @ [255])"
  proof -
    have "drop (p + r + length M) zl1 = [255]" unfolding e1 using lzl1
      by (simp add: zl1)
    moreover have "p + r + length M \<le> length zl1" using e1 lzl1 by simp
    ultimately show ?thesis using tk by (simp add: wr_def)
  qed
  have mm: "memmove zl1 (int (p + r)) (int src) (int (L - 1 - src)) = Some (Pre @ G @ M @ [255])"
    by (rule memmove_at[where M=M]) (simp_all only: nat_int rd w1 of_nat_0_le_iff)
  have dM: "drop (length N) M = B @ Rest"
  proof -
    have "drop (length N) M = drop (p + length V) Z" using src by (simp add: M_def add.commute)
    then show ?thesis by (simp add: Z_def p)
  qed
  have Ms: "M = take (length N) M @ (B @ Rest)" using dM by (metis append_take_drop_id)
  have lt: "length (take (length N) M) = length N" using lM' by simp
  have "wr ((Pre @ G) @ take (length N) M @ (B @ Rest @ [255])) (p + r) N = Some ((Pre @ G) @ N @ (B @ Rest @ [255]))"
    by (rule wr_at) (use p lG lt in simp_all)
  moreover have "(Pre @ G) @ take (length N) M @ (B @ Rest @ [255]) = Pre @ G @ M @ [255]"
    using Ms by (metis append.assoc)
  ultimately have w2: "wr (Pre @ G @ M @ [255]) (p + r) N = Some (Pre @ G @ N @ B @ Rest @ [255])"
    by (simp only: append.assoc)
  show ?thesis using lG mm w2 by blast
qed

lemma rd_ebs_first:
  assumes "p = length A" "list_all ent_ok post"
  shows "\<exists>x. rd (A @ ebs post @ [255]) p = Some x \<and> (x \<noteq> 255 \<longleftrightarrow> post \<noteq> [])"
proof (cases post)
  case Nil
  then show ?thesis using rd_at[OF assms(1), of 255 "[]"] by simp
next
  case (Cons e post')
  obtain lg pl b where e: "e = (lg, pl, b)" by (cases e) auto
  have "ent_ok (lg, pl, b)" using assms(2) Cons e by simp
  from rd_eb_at[OF assms(1) this, of "ebs post' @ [255]"] show ?thesis using Cons e by simp
qed

lemma cascade_spec_chain: "chain l post \<Longrightarrow> cascade_spec l post = post"
  by (cases post) auto

lemma tailpos_mid:
  "tailpos (pre @ e # f # post) = 10 + length (ebs pre) + length (eb e) + length (ebs (butlast (f # post)))"
  by (simp add: tailpos_def butlast_append)

lemma tailpos_mid1:
  "tailpos (pre @ f # post) = 10 + length (ebs pre) + length (ebs (butlast (f # post)))"
  by (simp add: tailpos_def butlast_append)

lemma insert_mid:
  assumes ok: "list_all ent_ok (pre @ (lg, pl, b) # post)"
    and ch: "chain (length (eb (lg, pl, b))) post"
    and c: "c < 65536"
    and r: "r = length (eb (new_ent pl s))"
    and nobug: "lg \<Longrightarrow> 4 \<le> r"
    and bound: "15 + length (ebs (pre @ (lg, pl, b) # post)) + r + 4 * length post < 4294967296"
  shows "uu_ziplistInsert (zl_of c (pre @ (lg, pl, b) # post)) (10 + length (ebs pre)) s =
     Some (zl_of (incr_count c 1)
             (pre @ new_ent pl s # (254 \<le> r, r, b) # cascade_spec (length (eb (254 \<le> r, r, b))) post))"
proof -
  define es where "es = pre @ (lg, pl, b) # post"
  define L where "L = 11 + length (ebs es)"
  define p where "p = 10 + length (ebs pre)"
  define t where "t = tailpos es"
  define V where "V = pv lg pl"
  define N where "N = pv (254 \<le> r) r"
  define d where "d = int (length N) - int (length V)"
  define k where "k = nat (int r + d)"
  define src where "src = nat (int p - d)"
  define post' where "post' = cascade_spec (length (eb (254 \<le> r, r, b))) post"
  obtain r0 enc v where te: "try_enc s = (r0, enc, v)" by (cases "try_enc s") auto
  have okp: "list_all ent_ok pre" "ent_ok (lg, pl, b)" "list_all ent_ok post" using ok by simp_all
  have okb: "lg \<or> pl < 254" "pl < 4294967296" "body_ok b" using okp(2) by (simp_all add: ent_ok_def)
  have rb: "r < 4294967296" using bound by simp
  have okn: "ent_ok (254 \<le> r, r, b)" using okb rb by (auto simp: ent_ok_def)
  have lV: "length V = (if lg then 5 else 1)" and lN: "length N = (if 254 \<le> r then 5 else 1)"
    by (simp_all add: V_def N_def)
  have dk: "int k = int r + d" using nobug new_ent_len[of pl s] r by (auto simp: k_def d_def lV lN)
  have ds: "int src = int p - d" by (auto simp: src_def d_def lV lN p_def)
  have sN: "src + length N = p + length V" using ds by (simp add: d_def)
  have FV: "k + length V = r + length N" using dk by (simp add: d_def)
  have ebn: "eb (lg, pl, b) = V @ b" "eb (254 \<le> r, r, b) = N @ b" by (simp_all add: eb_def V_def N_def)
  have lee: "int (length (eb (254 \<le> r, r, b))) = int (length (eb (lg, pl, b))) + d"
    by (simp add: ebn d_def)
  have Les: "L = 11 + length (ebs pre) + length V + length b + length (ebs post)"
    by (simp add: L_def es_def ebn)
  have Lb: "L < 4294967296" "L + k + 4 * length post < 4294967296"
    using bound dk by (auto simp add: L_def es_def d_def lV lN split: if_splits)
  let ?H = "hdr L t c"
  have zl: "zl_of c es = ?H @ ebs es @ [255]" by (simp add: zl_of_def L_def t_def)
  have E: "ebs es = ebs pre @ eb (lg, pl, b) @ ebs post" by (simp add: es_def)
  have zla: "zl_of c es = (?H @ ebs pre) @ eb (lg, pl, b) @ (ebs post @ [255])" by (simp add: zl E)
  have zlb: "zl_of c es = (?H @ ebs pre) @ pv lg pl @ (b @ ebs post @ [255])" by (simp add: zl E eb_def)
  have 1: "ZIPLIST_BYTES (zl_of c es) = Some L" unfolding zl by (rule H_bytes[OF Lb(1)])
  obtain x where 2: "rd (zl_of c es) p = Some x" "x \<noteq> 255"
    unfolding zla using rd_eb_at[OF _ okp(2), of p "?H @ ebs pre" "ebs post @ [255]"] by (auto simp: p_def)
  have 3: "ZIP_DECODE_PREVLEN (zl_of c es) p = Some (if lg then 5 else 1, pl)"
    unfolding zlb by (rule PL_at[OF _ okb(1,2)]) (simp add: p_def)
  have 7: "r = r0 + length (zipPrevEncodeLength pl) + length (zipEncodeLength enc (length s))"
    using length_new_ent[OF te, of pl] r by simp
  have ur: "u32 r = r" using rb by (simp add: u32_def)
  have "ZIP_DECODE_PREVLENSIZE (zl_of c es) p = Some (if lg then 5 else 1)"
    unfolding zlb by (rule PLS_at[OF _ okb(1)]) (simp add: p_def)
  then have 4: "zipPrevLenByteDiff (zl_of c es) p (u32 r) = Some d"
    by (simp add: zipPrevLenByteDiff_def ur zipPrevEncodeLength_pv d_def lV lN)
  define zl1 where "zl1 = hdr (L + k) t c @ ebs es @ fresh k @ [255]"
  have "ziplistResize (zl_of c es) (int L + int k) = Some zl1"
    unfolding zl zl1_def by (rule H_resize_grow) (use Lb in \<open>simp_all add: L_def\<close>)
  then have 8: "ziplistResize (zl_of c es) (int L + int r + d) = Some zl1" using dk by (simp add: add.assoc)
  let ?H1 = "hdr (L + k) t c"
  have z1a: "zl1 = (?H1 @ ebs pre) @ eb (lg, pl, b) @ (ebs post @ fresh k @ [255])" by (simp add: zl1_def E)
  obtain x1 where 9: "rd zl1 p = Some x1" "x1 \<noteq> 255"
    unfolding z1a using rd_eb_at[OF _ okp(2), of p "?H1 @ ebs pre" "ebs post @ fresh k @ [255]"] by (auto simp: p_def)
  have z1b: "zl1 = (?H1 @ ebs pre) @ V @ b @ ebs post @ fresh k @ [255]" by (simp add: zl1_def E ebn)
  from insert_shift[OF z1b, of p L src N r] obtain G zl2 where
    G: "length G = r" and mm: "memmove zl1 (int (p + r)) (int src) (int (L - 1 - src)) = Some zl2"
    and w3: "wr zl2 (p + r) N = Some ((?H1 @ ebs pre) @ G @ N @ b @ ebs post @ [255])"
    using sN FV by (auto simp: p_def Les)
  have "int (L - 1 - src) = int L - int p - 1 + d" using ds sN by (simp add: Les p_def)
  then have 10: "memmove zl1 (int p + int r) (int p - d) (int L - int p - 1 + d) = Some zl2"
    using mm ds by simp
  have 11: "wr zl2 (p + r) (zipPrevEncodeLength (u32 r)) = Some (?H1 @ ebs pre @ G @ N @ b @ ebs post @ [255])"
    using w3 by (simp add: ur zipPrevEncodeLength_pv N_def)
  have tb: "t + r + 5 < 4294967296" using tailpos_lt[of es] bound by (simp add: t_def es_def)
  have 12: "ZIPLIST_TAIL_OFFSET (?H1 @ ebs pre @ G @ N @ b @ ebs post @ [255]) = Some t"
    by (rule H_tail) (use tb in simp)
  define R where "R = ebs pre @ G @ N @ b @ ebs post @ [255]"
  have 13: "set_ZIPLIST_TAIL_OFFSET (?H1 @ ebs pre @ G @ N @ b @ ebs post @ [255]) (int t + int r)
       = Some (hdr (L + k) (t + r) c @ R)"
    using H_set_tail_nat[of "t + r" "L + k" t c R] tb by (simp add: R_def)
  let ?H4 = "hdr (L + k) (t + r) c"
  have z4: "?H4 @ R = (?H4 @ ebs pre @ G) @ eb (254 \<le> r, r, b) @ (ebs post @ [255])" by (simp add: R_def ebn)
  define tail where "tail = \<lparr> prevrawlensize = (if 254 \<le> r then 5 else 1), prevrawlen = r, lensize = b_lsz b,
      vallen = b_len b, headersize = (if 254 \<le> r then 5 else 1) + b_lsz b, encoding = b_enc b, ptr = p + r \<rparr>"
  have 14: "zipEntry (?H4 @ R) (p + r) = Some tail"
    unfolding z4 tail_def by (rule zipEntry_at[OF _ okn]) (simp add: p_def G)
  have e15: "p + (r + headersize tail + vallen tail) = p + r + length (eb (254 \<le> r, r, b))"
    using body_ok_D[OF okb(3)] by (simp add: tail_def ebn lN)
  have z4b: "?H4 @ R = (?H4 @ ebs pre @ G @ eb (254 \<le> r, r, b)) @ ebs post @ [255]" by (simp add: R_def ebn)
  obtain b2 where 15: "rd (?H4 @ R) (p + (r + headersize tail + vallen tail)) = Some b2"
      and b2: "b2 \<noteq> 255 \<longleftrightarrow> post \<noteq> []"
    unfolding e15 z4b
    using rd_ebs_first[OF _ okp(3), of "p + r + length (eb (254 \<le> r, r, b))" "?H4 @ ebs pre @ G @ eb (254 \<le> r, r, b)"]
    by (auto simp: p_def G)
  define t5 where "t5 = p + r + length (ebs (butlast ((254 \<le> r, r, b) # post)))"
  have t5: "int t5 = int t + int r + (if post \<noteq> [] then d else 0)"
    using lee by (simp add: t5_def t_def es_def tailpos_mid1 p_def)
  have t4: "ZIPLIST_TAIL_OFFSET (?H4 @ R) = Some (t + r)" by (rule H_tail) (use tb in simp)
  have t5b: "t5 < 4294967296" using t5 tb by (auto simp: d_def lV lN split: if_splits)
  have "post \<noteq> [] \<Longrightarrow> set_ZIPLIST_TAIL_OFFSET (?H4 @ R) (int (t + r) + d) = Some (hdr (L + k) t5 c @ R)"
    using H_set_tail_nat[OF t5b, of "L + k" "t + r" c R] t5 by (simp add: add.assoc)
  moreover have "post = [] \<Longrightarrow> t5 = t + r" using t5 by simp
  ultimately have 16: "(if b2 \<noteq> 255 then do { t2 \<leftarrow> ZIPLIST_TAIL_OFFSET (?H4 @ R); set_ZIPLIST_TAIL_OFFSET (?H4 @ R) (int t2 + d) }
      else Some (?H4 @ R)) = Some (hdr (L + k) t5 c @ R)"
    using b2 t4 by auto
  define L6 where "L6 = 11 + length (ebs pre @ G) + length (eb (254 \<le> r, r, b)) + length (ebs post')"
  define t6 where "t6 = p + r + length (ebs (butlast ((254 \<le> r, r, b) # post')))"
  define C where "C = eb (254 \<le> r, r, b) @ ebs post' @ [255]"
  have Lk: "L + k = 11 + length (ebs pre @ G) + length (eb (254 \<le> r, r, b)) + length (ebs post)"
    using FV by (simp add: Les G ebn)
  have z5: "hdr (L + k) t5 c @ R = hdr (L + k) t5 c @ (ebs pre @ G) @ eb (254 \<le> r, r, b) @ ebs post @ [255]"
    by (simp add: R_def ebn)
  have 17: "(if d \<noteq> 0 then uu_ziplistCascadeUpdate (hdr (L + k) t5 c @ R) (p + r) else Some (hdr (L + k) t5 c @ R))
       = Some (hdr L6 t6 c @ (ebs pre @ G) @ C)"
  proof (cases "d = 0")
    case True
    have "length (eb (254 \<le> r, r, b)) = length (eb (lg, pl, b))" using lee True by simp
    then have "post' = post" using ch by (simp add: post'_def cascade_spec_chain)
    then show ?thesis using True z5 Lk by (simp add: L6_def t6_def t5_def C_def)
  next
    case False
    have by5: "ZIPLIST_BYTES (hdr (L + k) t5 c @ R) = Some (L + k)" by (rule H_bytes) (use Lb in simp)
    have "cascade_loop (hdr (L + k) t5 c @ (ebs pre @ G) @ eb (254 \<le> r, r, b) @ ebs post @ [255]) (p + r) (L + k)
        = Some (hdr L6 t6 c @ (ebs pre @ G) @ eb (254 \<le> r, r, b) @ ebs post' @ [255])"
      unfolding L6_def t6_def post'_def
      by (rule cascade_loop_spec[OF okp(3) okn _ Lk _ Lb(2)]) (simp_all add: p_def G t5_def)
    then show ?thesis using False by5 unfolding z5[symmetric] by (simp add: uu_ziplistCascadeUpdate_def C_def)
  qed
  have z6: "hdr L6 t6 c @ (ebs pre @ G) @ C = (hdr L6 t6 c @ ebs pre) @ G @ C" by simp
  from entry_write[OF te z6, of p pl] obtain zl7 zl8 where
    w: "wr (hdr L6 t6 c @ (ebs pre @ G) @ C) p (zipPrevEncodeLength pl) = Some zl7"
      "wr zl7 (p + length (zipPrevEncodeLength pl)) (zipEncodeLength enc (length s)) = Some zl8"
      "(if ZIP_IS_STR enc
          then wr zl8 (p + length (zipPrevEncodeLength pl) + length (zipEncodeLength enc (length s))) s
          else zipSaveInteger zl8 (p + length (zipPrevEncodeLength pl) + length (zipEncodeLength enc (length s))) v enc)
         = Some ((hdr L6 t6 c @ ebs pre) @ eb (new_ent pl s) @ C)"
    using G r by (auto simp: p_def)
  have 19: "ZIPLIST_INCR_LENGTH ((hdr L6 t6 c @ ebs pre) @ eb (new_ent pl s) @ C) 1
        = Some (hdr L6 t6 (incr_count c 1) @ ebs pre @ eb (new_ent pl s) @ C)"
    using H_incr[OF c, of L6 t6 "ebs pre @ eb (new_ent pl s) @ C" 1] by simp
  have fin: "hdr L6 t6 (incr_count c 1) @ ebs pre @ eb (new_ent pl s) @ C
       = zl_of (incr_count c 1) (pre @ new_ent pl s # (254 \<le> r, r, b) # post')"
    using r G by (simp add: zl_of_def L6_def t6_def C_def tailpos_mid p_def add.assoc)
  have "uu_ziplistInsert (zl_of c es) p s = Some (hdr L6 t6 (incr_count c 1) @ ebs pre @ eb (new_ent pl s) @ C)"
    by (rule insert_unfold_mid[OF 1 2 3 te 7 4 8 9 10 11 12 13 14 15 16 17 w 19])
  then show ?thesis unfolding fin by (simp add: p_def es_def post'_def)
qed


section \<open>Deleting from a list of entries\<close>

lemma delete_skip_ebs:
  assumes "list_all ent_ok del" "p = length A" "length (ebs del) < 4294967296"
    "length del = num \<or> length del \<le> num \<and> x = 255"
  shows "delete_skip num (A @ ebs del @ x # T) p k = Some (p + length (ebs del), k + length del)"
  using assms
proof (induction del arbitrary: A p k num)
  case Nil
  have "rd (A @ x # T) p = Some x" by (rule rd_at[OF Nil(2)])
  then show ?case using Nil(4) by (cases num) auto
next
  case (Cons e del)
  obtain lg pl b where e: "e = (lg, pl, b)" by (cases e) auto
  have ok: "ent_ok (lg, pl, b)" using Cons.prems(1) e by simp
  obtain n where num: "num = Suc n" using Cons.prems(4) by (cases num) auto
  let ?C = "ebs del @ x # T"
  from rd_eb_at[OF Cons.prems(2) ok, of ?C] obtain y where
    y: "rd (A @ eb (lg, pl, b) @ ?C) p = Some y" "y \<noteq> 255" by blast
  have l: "zipRawEntryLength (A @ eb (lg, pl, b) @ ?C) p = Some (length (eb (lg, pl, b)))"
    using Cons.prems(3) e by (intro zipRawEntryLength_at[OF Cons.prems(2) ok]) simp
  have ih: "delete_skip n ((A @ eb e) @ ebs del @ x # T) (p + length (eb e)) (k + 1)
      = Some (p + length (eb e) + length (ebs del), k + 1 + length del)"
    using Cons.prems num by (intro Cons.IH) auto
  show ?case using y l ih e num by (simp add: add.assoc)
qed

lemma delete_unfold_end:
  assumes "zipEntry zl p0 = Some first" "ptr first = p0"
    "delete_skip num zl p0 0 = Some (p, deleted)" "p0 < p" "rd zl p = Some 255"
    "set_ZIPLIST_TAIL_OFFSET zl (int p0 - int (prevrawlen first)) = Some zl5"
    "ZIPLIST_BYTES zl5 = Some bytes"
    "ziplistResize zl5 (int bytes - int (p - p0)) = Some zl6"
    "ZIPLIST_INCR_LENGTH zl6 (- int deleted) = Some zl7"
  shows "uu_ziplistDelete zl p0 num = Some zl7"
  using assms unfolding uu_ziplistDelete_def
  by (auto simp add: Let_def split: if_splits)

lemma delete_unfold_mid:
  assumes "zipEntry zl p0 = Some first" "ptr first = p0"
    "delete_skip num zl p0 0 = Some (p, deleted)" "p0 < p" "rd zl p = Some x" "x \<noteq> 255"
    "zipPrevLenByteDiff zl p (prevrawlen first) = Some d" "0 \<le> int p - d"
    "wr zl (nat (int p - d)) (zipPrevEncodeLength (prevrawlen first)) = Some zl1"
    "ZIPLIST_TAIL_OFFSET zl1 = Some t"
    "set_ZIPLIST_TAIL_OFFSET zl1 (int t - int (p - p0)) = Some zl2"
    "zipEntry zl2 (nat (int p - d)) = Some tail"
    "rd zl2 (nat (int p - d) + u32 (headersize tail + vallen tail)) = Some b2"
    "(if b2 \<noteq> 255 then do { t2 \<leftarrow> ZIPLIST_TAIL_OFFSET zl2; set_ZIPLIST_TAIL_OFFSET zl2 (int t2 + d) }
      else Some zl2) = Some zl3"
    "ZIPLIST_BYTES zl3 = Some bytes"
    "memmove zl3 (int p0) (int p - d) (int bytes - (int p - d) - 1) = Some zl4"
    "ZIPLIST_BYTES zl4 = Some bytes4"
    "ziplistResize zl4 (int bytes4 - int (p - p0) + d) = Some zl6"
    "ZIPLIST_INCR_LENGTH zl6 (- int deleted) = Some zl7"
    "(if d \<noteq> 0 then uu_ziplistCascadeUpdate zl7 p0 else Some zl7) = Some zl8"
  shows "uu_ziplistDelete zl p0 num = Some zl8"
  using assms unfolding uu_ziplistDelete_def
  by (auto simp add: Let_def split: if_splits)

lemma H_resize_shrink:
  assumes "n = 11 + length E" "n < 4294967296"
  shows "ziplistResize (hdr L t c @ E @ x # J) (int n) = Some (hdr n t c @ E @ [255])"
proof -
  have "take (n - 10) (E @ x # J) = E @ [x]" using assms by simp
  moreover have "n - 10 - length (E @ x # J) = 0" using assms by simp
  ultimately have "butlast (take (n - 10) (E @ x # J) @ replicate (n - 10 - length (E @ x # J)) 0) = E"
    by (simp add: butlast_append)
  then show ?thesis using H_resize[of n L t c "E @ x # J"] assms by simp
qed

lemma delete_shift:
  fixes Pre D1 M :: blob
  assumes "p0 = length Pre" "q = p0 + length D1"
  shows "\<exists>x J. memmove (Pre @ D1 @ M @ [255]) (int p0) (int q) (int (length M)) = Some (Pre @ M @ x # J)"
proof -
  define W where "W = D1 @ M @ [255::byte]"
  define J0 where "J0 = drop (length M) W"
  have "length J0 = length D1 + 1" by (simp add: J0_def W_def)
  then obtain x J where J: "J0 = x # J" by (cases J0) auto
  have Ws: "W = take (length M) W @ x # J" using J unfolding J0_def by (metis append_take_drop_id)
  have rd: "rdn ((Pre @ D1) @ M @ [255]) q (length M) = Some M"
    by (rule rdn_at) (use assms in simp_all)
  have "wr (Pre @ take (length M) W @ x # J) p0 M = Some (Pre @ M @ x # J)"
    by (rule wr_at) (use assms in \<open>simp_all add: W_def\<close>)
  then have w: "wr (Pre @ D1 @ M @ [255]) p0 M = Some (Pre @ M @ x # J)"
    using Ws by (simp add: W_def)
  have "memmove (Pre @ D1 @ M @ [255]) (int p0) (int q) (int (length M)) = Some (Pre @ M @ x # J)"
    by (rule memmove_at[where M=M]) (use rd w in \<open>simp_all only: nat_int of_nat_0_le_iff append.assoc\<close>)
  then show ?thesis by blast
qed

lemma plen_tailpos: "10 + length (ebs pre) - plen pre = tailpos pre"
proof (cases "pre = []")
  case True
  then show ?thesis by (simp add: plen_def)
next
  case False
  then have "pre = butlast pre @ [last pre]" by simp
  then have "ebs pre = ebs (butlast pre) @ eb (last pre)" by (metis ebs_append ebs_Cons ebs_Nil append_Nil2)
  then show ?thesis using False by (simp add: plen_def tailpos_def)
qed

lemma plen_le: "plen pre \<le> length (ebs pre)"
proof (cases "pre = []")
  case True
  then show ?thesis by (simp add: plen_def)
next
  case False
  then have "pre = butlast pre @ [last pre]" by simp
  then have "ebs pre = ebs (butlast pre) @ eb (last pre)" by (metis ebs_append ebs_Cons ebs_Nil append_Nil2)
  then show ?thesis using False by (simp add: plen_def)
qed

lemma delete_end:
  assumes ok: "list_all ent_ok (pre @ (lg, pl, b) # del)"
    and num: "Suc (length del) \<le> num"
    and pl: "pl = plen pre"
    and c: "c < 65536"
    and bound: "11 + length (ebs (pre @ (lg, pl, b) # del)) < 4294967296"
  shows "uu_ziplistDelete (zl_of c (pre @ (lg, pl, b) # del)) (10 + length (ebs pre)) num =
     Some (zl_of (incr_count c (- int (Suc (length del)))) pre)"
proof -
  define es where "es = pre @ (lg, pl, b) # del"
  define L where "L = 11 + length (ebs es)"
  define p0 where "p0 = 10 + length (ebs pre)"
  define D where "D = ebs ((lg, pl, b) # del)"
  define t where "t = tailpos es"
  have okp: "list_all ent_ok pre" "ent_ok (lg, pl, b)" "list_all ent_ok ((lg, pl, b) # del)" using ok by simp_all
  have E: "ebs es = ebs pre @ D" by (simp add: es_def D_def)
  have Lb: "L < 4294967296" using bound by (simp add: L_def es_def)
  let ?H = "hdr L t c"
  have zl: "zl_of c es = ?H @ ebs pre @ D @ [255]" by (simp add: zl_of_def L_def t_def E)
  have zla: "zl_of c es = (?H @ ebs pre) @ eb (lg, pl, b) @ (ebs del @ [255])" by (simp add: zl D_def)
  have zlb: "zl_of c es = (?H @ ebs pre) @ ebs ((lg, pl, b) # del) @ 255 # []" by (simp add: zl D_def)
  define first where "first = \<lparr> prevrawlensize = (if lg then 5 else 1), prevrawlen = pl, lensize = b_lsz b,
      vallen = b_len b, headersize = (if lg then 5 else 1) + b_lsz b, encoding = b_enc b, ptr = p0 \<rparr>"
  have 1: "zipEntry (zl_of c es) p0 = Some first"
    unfolding zla first_def by (rule zipEntry_at[OF _ okp(2)]) (simp add: p0_def)
  have 2: "ptr first = p0" by (simp add: first_def)
  have 3: "delete_skip num (zl_of c es) p0 0 = Some (p0 + length D, Suc (length del))"
    unfolding zlb using delete_skip_ebs[OF okp(3), of p0 "?H @ ebs pre" num 255 "[]" 0] num bound
    by (simp add: p0_def D_def es_def)
  have Dpos: "0 < length D" using ent_ok_len[OF okp(2)] by (cases "eb (lg, pl, b)") (simp_all add: D_def)
  then have 4: "p0 < p0 + length D" by simp
  have "rd ((?H @ ebs pre @ D) @ 255 # []) (p0 + length D) = Some 255" by (rule rd_at) (simp add: p0_def)
  then have 5: "rd (zl_of c es) (p0 + length D) = Some 255" by (simp add: zl)
  have tp: "int p0 - int (prevrawlen first) = int (tailpos pre)"
    using plen_tailpos[of pre] plen_le[of pre] pl by (simp add: first_def p0_def)
  have tb: "tailpos pre < 4294967296" using tailpos_lt[of pre] bound by simp
  have 6: "set_ZIPLIST_TAIL_OFFSET (zl_of c es) (int p0 - int (prevrawlen first))
       = Some (hdr L (tailpos pre) c @ ebs pre @ D @ [255])"
    unfolding zl tp by (rule H_set_tail_nat[OF tb])
  have 7: "ZIPLIST_BYTES (hdr L (tailpos pre) c @ ebs pre @ D @ [255]) = Some L" by (rule H_bytes[OF Lb])
  obtain x J where xJ: "D @ [255] = x # J" using Dpos by (cases D) auto
  have n: "int L - int (p0 + length D - p0) = int (11 + length (ebs pre))" by (simp add: L_def E)
  have "ziplistResize (hdr L (tailpos pre) c @ ebs pre @ x # J) (int (11 + length (ebs pre)))
      = Some (hdr (11 + length (ebs pre)) (tailpos pre) c @ ebs pre @ [255])"
    by (rule H_resize_shrink) (use bound in simp_all)
  then have 8: "ziplistResize (hdr L (tailpos pre) c @ ebs pre @ D @ [255]) (int L - int (p0 + length D - p0))
      = Some (zl_of c pre)"
    unfolding n xJ by (simp add: zl_of_def)
  have 9: "ZIPLIST_INCR_LENGTH (zl_of c pre) (- int (Suc (length del)))
      = Some (zl_of (incr_count c (- int (Suc (length del)))) pre)"
    unfolding zl_of_def by (rule H_incr[OF c])
  have "uu_ziplistDelete (zl_of c es) p0 num = Some (zl_of (incr_count c (- int (Suc (length del)))) pre)"
    by (rule delete_unfold_end[OF 1 2 3 4 5 6 7 8 9])
  then show ?thesis by (simp add: es_def p0_def)
qed

lemma delete_mid:
  assumes ok: "list_all ent_ok (pre @ (flg, fpl, fb) # del @ (lg, pl, b) # post)"
    and num: "num = Suc (length del)"
    and ch: "chain (length (eb (lg, pl, b))) post"
    and c: "c < 65536"
    and bound: "11 + length (ebs (pre @ (flg, fpl, fb) # del @ (lg, pl, b) # post)) + 4 * length post < 4294967296"
  shows "uu_ziplistDelete (zl_of c (pre @ (flg, fpl, fb) # del @ (lg, pl, b) # post)) (10 + length (ebs pre)) num =
     Some (zl_of (incr_count c (- int num))
             (pre @ (254 \<le> fpl, fpl, b) # cascade_spec (length (eb (254 \<le> fpl, fpl, b))) post))"
proof -
  define es where "es = pre @ (flg, fpl, fb) # del @ (lg, pl, b) # post"
  define L where "L = 11 + length (ebs es)"
  define p0 where "p0 = 10 + length (ebs pre)"
  define D where "D = ebs ((flg, fpl, fb) # del)"
  define t where "t = tailpos es"
  define V where "V = pv lg pl"
  define N where "N = pv (254 \<le> fpl) fpl"
  define d where "d = int (length N) - int (length V)"
  define q where "q = nat (int (p0 + length D) - d)"
  define D1 where "D1 = take (q - p0) (D @ V)"
  define W where "W = drop (q - p0) (D @ V)"
  define M where "M = N @ b @ ebs post"
  define post' where "post' = cascade_spec (length (eb (254 \<le> fpl, fpl, b))) post"
  have okp: "list_all ent_ok pre" "ent_ok (flg, fpl, fb)" "list_all ent_ok ((flg, fpl, fb) # del)"
    "ent_ok (lg, pl, b)" "list_all ent_ok post" using ok by simp_all
  have okb: "lg \<or> pl < 254" "pl < 4294967296" "body_ok b" using okp(4) by (simp_all add: ent_ok_def)
  have okf: "flg \<or> fpl < 254" "fpl < 4294967296" using okp(2) by (simp_all add: ent_ok_def)
  have okn: "ent_ok (254 \<le> fpl, fpl, b)" using okb okf by (auto simp: ent_ok_def)
  have lV: "length V = (if lg then 5 else 1)" and lN: "length N = (if 254 \<le> fpl then 5 else 1)"
    by (simp_all add: V_def N_def)
  have ebn: "eb (lg, pl, b) = V @ b" "eb (254 \<le> fpl, fpl, b) = N @ b" by (simp_all add: eb_def V_def N_def)
  have lee: "int (length (eb (254 \<le> fpl, fpl, b))) = int (length (eb (lg, pl, b))) + d"
    by (simp add: ebn d_def)
  have E: "ebs es = ebs pre @ D @ V @ b @ ebs post" by (simp add: es_def D_def ebn)
  have lD: "length D = length (eb (flg, fpl, fb)) + length (ebs del)" by (simp add: D_def)
  have D2: "2 \<le> length D" using ent_ok_len[OF okp(2)] lD by simp
  have fb1: "1 \<le> length fb" using okp(2) body_ok_len[of fb] by (simp add: ent_ok_def)
  have D6: "254 \<le> fpl \<Longrightarrow> 6 \<le> length D" using okf fb1 lD by (simp add: length_eb)
  have qi: "int q = int (p0 + length D) - d" using D2 by (auto simp: q_def d_def lV lN p0_def)
  have qp: "p0 \<le> q" "q + length N = p0 + length D + length V"
    using qi D2 D6 by (auto simp: d_def lV lN split: if_splits)
  have lD1: "length D1 = q - p0" using qp by (simp add: D1_def lN)
  have lW: "length W = length N" using qp by (simp add: W_def)
  have DV: "D @ V = D1 @ W" unfolding D1_def W_def by (simp only: append_take_drop_id)
  have Lb: "L < 4294967296" using bound by (simp add: L_def es_def)
  let ?H = "hdr L t c"
  have zl: "zl_of c es = ?H @ ebs pre @ D @ V @ b @ ebs post @ [255]" by (simp add: zl_of_def L_def t_def E)
  have zla: "zl_of c es = (?H @ ebs pre) @ eb (flg, fpl, fb) @ (ebs del @ V @ b @ ebs post @ [255])"
    by (simp add: zl D_def)
  have zlb: "zl_of c es = (?H @ ebs pre) @ ebs ((flg, fpl, fb) # del) @ hd V # (tl V @ b @ ebs post @ [255])"
    unfolding zl D_def using lV by (cases V) (auto split: if_splits)
  have zlc: "zl_of c es = (?H @ ebs pre @ D) @ eb (lg, pl, b) @ (ebs post @ [255])" by (simp add: zl ebn)
  have zld: "zl_of c es = (?H @ ebs pre @ D) @ pv lg pl @ (b @ ebs post @ [255])" by (simp add: zl V_def)
  have zle: "zl_of c es = (?H @ ebs pre @ D1) @ W @ (b @ ebs post @ [255])"
    using DV by (simp add: zl)
  define first where "first = \<lparr> prevrawlensize = (if flg then 5 else 1), prevrawlen = fpl, lensize = b_lsz fb,
      vallen = b_len fb, headersize = (if flg then 5 else 1) + b_lsz fb, encoding = b_enc fb, ptr = p0 \<rparr>"
  have 1: "zipEntry (zl_of c es) p0 = Some first"
    unfolding zla first_def by (rule zipEntry_at[OF _ okp(2)]) (simp add: p0_def)
  have 2: "ptr first = p0" by (simp add: first_def)
  have pf: "prevrawlen first = fpl" by (simp add: first_def)
  have 3: "delete_skip num (zl_of c es) p0 0 = Some (p0 + length D, num)"
    unfolding zlb using delete_skip_ebs[OF okp(3), of p0 "?H @ ebs pre" num "hd V" "tl V @ b @ ebs post @ [255]" 0] num bound
    by (simp add: p0_def D_def es_def)
  have 4: "p0 < p0 + length D" using D2 by linarith
  obtain x where 5: "rd (zl_of c es) (p0 + length D) = Some x" "x \<noteq> 255"
    unfolding zlc using rd_eb_at[OF _ okp(4), of "p0 + length D" "?H @ ebs pre @ D" "ebs post @ [255]"]
    by (auto simp: p0_def)
  have "ZIP_DECODE_PREVLENSIZE (zl_of c es) (p0 + length D) = Some (if lg then 5 else 1)"
    unfolding zld by (rule PLS_at[OF _ okb(1)]) (simp add: p0_def)
  then have 6: "zipPrevLenByteDiff (zl_of c es) (p0 + length D) (prevrawlen first) = Some d"
    by (simp add: zipPrevLenByteDiff_def pf zipPrevEncodeLength_pv d_def lV lN)
  have 7: "0 \<le> int (p0 + length D) - d" using qi by linarith
  define R1 where "R1 = ebs pre @ D1 @ N @ b @ ebs post @ [255]"
  have "wr ((?H @ ebs pre @ D1) @ W @ (b @ ebs post @ [255])) q N = Some ((?H @ ebs pre @ D1) @ N @ (b @ ebs post @ [255]))"
    by (rule wr_at) (use qp lD1 lW in \<open>simp_all add: p0_def\<close>)
  then have 8: "wr (zl_of c es) (nat (int (p0 + length D) - d)) (zipPrevEncodeLength (prevrawlen first))
      = Some (?H @ R1)"
    unfolding zle q_def[symmetric] by (simp add: pf zipPrevEncodeLength_pv N_def R1_def)
  have tE: "t = p0 + length D + length (ebs (butlast ((lg, pl, b) # post)))"
    by (simp add: t_def es_def tailpos_def butlast_append p0_def D_def)
  have tb: "t < 4294967296" using tailpos_lt[of es] bound by (simp add: t_def es_def)
  have 9: "ZIPLIST_TAIL_OFFSET (?H @ R1) = Some t" by (rule H_tail[OF tb])
  define t2 where "t2 = p0 + length (ebs (butlast ((lg, pl, b) # post)))"
  have "int t - int (p0 + length D - p0) = int t2" by (simp add: tE t2_def)
  then have 10: "set_ZIPLIST_TAIL_OFFSET (?H @ R1) (int t - int (p0 + length D - p0)) = Some (hdr L t2 c @ R1)"
    using H_set_tail_nat[of t2 L t c R1] tb by (simp add: tE t2_def)
  let ?H2 = "hdr L t2 c"
  have z2: "?H2 @ R1 = (?H2 @ ebs pre @ D1) @ eb (254 \<le> fpl, fpl, b) @ (ebs post @ [255])"
    by (simp add: R1_def ebn)
  define tail where "tail = \<lparr> prevrawlensize = (if 254 \<le> fpl then 5 else 1), prevrawlen = fpl, lensize = b_lsz b,
      vallen = b_len b, headersize = (if 254 \<le> fpl then 5 else 1) + b_lsz b, encoding = b_enc b, ptr = q \<rparr>"
  have 11: "zipEntry (?H2 @ R1) (nat (int (p0 + length D) - d)) = Some tail"
    unfolding z2 tail_def q_def[symmetric] by (rule zipEntry_at[OF _ okn]) (use qp lD1 in \<open>simp add: p0_def\<close>)
  have e12: "nat (int (p0 + length D) - d) + u32 (headersize tail + vallen tail) = q + length (eb (254 \<le> fpl, fpl, b))"
    using body_ok_D[OF okb(3)] bound by (simp add: tail_def q_def ebn lN u32_def es_def add.assoc)
  have z2b: "?H2 @ R1 = (?H2 @ ebs pre @ D1 @ eb (254 \<le> fpl, fpl, b)) @ ebs post @ [255]" by (simp add: R1_def ebn)
  obtain b2 where 12: "rd (?H2 @ R1) (nat (int (p0 + length D) - d) + u32 (headersize tail + vallen tail)) = Some b2"
      and b2: "b2 \<noteq> 255 \<longleftrightarrow> post \<noteq> []"
    unfolding e12 z2b
    using rd_ebs_first[OF _ okp(5), of "q + length (eb (254 \<le> fpl, fpl, b))" "?H2 @ ebs pre @ D1 @ eb (254 \<le> fpl, fpl, b)"]
      qp lD1
    by (auto simp: p0_def)
  define t3 where "t3 = p0 + length (ebs (butlast ((254 \<le> fpl, fpl, b) # post)))"
  have t3: "int t3 = int t2 + (if post \<noteq> [] then d else 0)"
    using lee by (simp add: t3_def t2_def)
  have t2r: "ZIPLIST_TAIL_OFFSET (?H2 @ R1) = Some t2" by (rule H_tail) (use tb in \<open>simp add: tE t2_def\<close>)
  have t3b: "t3 < 4294967296" using t3 tb D6 by (auto simp: tE t2_def d_def lV lN split: if_splits)
  have "post \<noteq> [] \<Longrightarrow> set_ZIPLIST_TAIL_OFFSET (?H2 @ R1) (int t2 + d) = Some (hdr L t3 c @ R1)"
    using H_set_tail_nat[OF t3b, of L t2 c R1] t3 by simp
  moreover have "post = [] \<Longrightarrow> t3 = t2" using t3 by simp
  ultimately have 13: "(if b2 \<noteq> 255 then do { t2 \<leftarrow> ZIPLIST_TAIL_OFFSET (?H2 @ R1); set_ZIPLIST_TAIL_OFFSET (?H2 @ R1) (int t2 + d) }
      else Some (?H2 @ R1)) = Some (hdr L t3 c @ R1)"
    using b2 t2r by auto
  let ?H3 = "hdr L t3 c"
  have 14: "ZIPLIST_BYTES (?H3 @ R1) = Some L" by (rule H_bytes[OF Lb])
  have z3: "?H3 @ R1 = (?H3 @ ebs pre) @ D1 @ M @ [255]" by (simp add: R1_def M_def)
  from delete_shift[of p0 "?H3 @ ebs pre" q D1 M] obtain y J where
    mm: "memmove ((?H3 @ ebs pre) @ D1 @ M @ [255]) (int p0) (int q) (int (length M)) = Some ((?H3 @ ebs pre) @ M @ y # J)"
    using qp lD1 by (auto simp: p0_def)
  have lM: "int L - int q - 1 = int (length M)"
    using qp by (simp add: L_def E M_def p0_def d_def)
  have "memmove (?H3 @ R1) (int p0) (int q) (int L - int q - 1) = Some (?H3 @ (ebs pre @ M) @ y # J)"
    unfolding lM z3 using mm by simp
  then have 15: "memmove (?H3 @ R1) (int p0) (int (p0 + length D) - d) (int L - (int (p0 + length D) - d) - 1)
      = Some (?H3 @ (ebs pre @ M) @ y # J)"
    unfolding qi .
  have 16: "ZIPLIST_BYTES (?H3 @ (ebs pre @ M) @ y # J) = Some L" by (rule H_bytes[OF Lb])
  define n where "n = 11 + length (ebs pre @ M)"
  have ni: "int L - int (p0 + length D - p0) + d = int n"
    using qp by (simp add: L_def E M_def n_def d_def)
  have nb: "n + 4 * length post < 4294967296" using ni bound D6 D2
    by (auto simp: L_def es_def d_def lV lN split: if_splits)
  have 17: "ziplistResize (?H3 @ (ebs pre @ M) @ y # J) (int L - int (p0 + length D - p0) + d)
      = Some (hdr n t3 c @ (ebs pre @ M) @ [255])"
    unfolding ni by (rule H_resize_shrink) (use nb in \<open>simp_all add: n_def\<close>)
  define c' where "c' = incr_count c (- int num)"
  have 18: "ZIPLIST_INCR_LENGTH (hdr n t3 c @ (ebs pre @ M) @ [255]) (- int num)
      = Some (hdr n t3 c' @ (ebs pre @ M) @ [255])"
    unfolding c'_def by (rule H_incr[OF c])
  define L6 where "L6 = 11 + length (ebs pre) + length (eb (254 \<le> fpl, fpl, b)) + length (ebs post')"
  define t6 where "t6 = p0 + length (ebs (butlast ((254 \<le> fpl, fpl, b) # post')))"
  have z7: "hdr n t3 c' @ (ebs pre @ M) @ [255] = hdr n t3 c' @ ebs pre @ eb (254 \<le> fpl, fpl, b) @ ebs post @ [255]"
    by (simp add: M_def ebn)
  have nE: "n = 11 + length (ebs pre) + length (eb (254 \<le> fpl, fpl, b)) + length (ebs post)"
    by (simp add: n_def M_def ebn)
  have 19: "(if d \<noteq> 0 then uu_ziplistCascadeUpdate (hdr n t3 c' @ (ebs pre @ M) @ [255]) p0
             else Some (hdr n t3 c' @ (ebs pre @ M) @ [255]))
       = Some (hdr L6 t6 c' @ ebs pre @ eb (254 \<le> fpl, fpl, b) @ ebs post' @ [255])"
  proof (cases "d = 0")
    case True
    have "length (eb (254 \<le> fpl, fpl, b)) = length (eb (lg, pl, b))" using lee True by simp
    then have "post' = post" using ch by (simp add: post'_def cascade_spec_chain)
    then show ?thesis using True z7 nE by (simp add: L6_def t6_def t3_def)
  next
    case False
    have by7: "ZIPLIST_BYTES (hdr n t3 c' @ (ebs pre @ M) @ [255]) = Some n" by (rule H_bytes) (use nb in simp)
    have "cascade_loop (hdr n t3 c' @ ebs pre @ eb (254 \<le> fpl, fpl, b) @ ebs post @ [255]) p0 n
        = Some (hdr L6 t6 c' @ ebs pre @ eb (254 \<le> fpl, fpl, b) @ ebs post' @ [255])"
      unfolding L6_def t6_def post'_def
      by (rule cascade_loop_spec[OF okp(5) okn _ nE _ nb]) (simp_all add: p0_def t3_def)
    then show ?thesis using False by7 unfolding z7[symmetric] by (simp add: uu_ziplistCascadeUpdate_def)
  qed
  have fin: "hdr L6 t6 c' @ ebs pre @ eb (254 \<le> fpl, fpl, b) @ ebs post' @ [255]
       = zl_of c' (pre @ (254 \<le> fpl, fpl, b) # post')"
    by (simp add: zl_of_def L6_def t6_def tailpos_mid1 p0_def add.assoc)
  have "uu_ziplistDelete (zl_of c es) p0 num = Some (hdr L6 t6 c' @ ebs pre @ eb (254 \<le> fpl, fpl, b) @ ebs post' @ [255])"
    by (rule delete_unfold_mid[OF 1 2 3 4 5 6 7 8 9 10 11 12 13 14 15 16 17 18 19])
  then show ?thesis unfolding fin by (simp add: p0_def es_def post'_def c'_def)
qed

section \<open>The spec's rule for the body of a new entry\<close>

text \<open>
  The spec's words for \<open>push\<close> and \<open>insert\<close>: the byte slice is parsed as a signed decimal
  integer, slices of length 0 or of 32 and more bytes being rejected; on success the
  smallest integer encoding is picked in the order imm4, i8, i16, i24, i32, i64; otherwise
  the slice is stored as a string with the smallest length encoding. \<open>int_entry\<close> and
  \<open>str_entry\<close> write the rows of the spec's table out byte by byte; \<open>spec_body\<close> is the
  body that the spec gives to the new entry.
\<close>

datatype int_kind = Imm4 | I8 | I16 | I24 | I32 | I64

fun kind_fits :: "int_kind \<Rightarrow> int \<Rightarrow> bool" where
  "kind_fits Imm4 v = (0 \<le> v \<and> v \<le> 12)"
| "kind_fits I8 v = (- 128 \<le> v \<and> v \<le> 127)"
| "kind_fits I16 v = (- 32768 \<le> v \<and> v \<le> 32767)"
| "kind_fits I24 v = (- 8388608 \<le> v \<and> v \<le> 8388607)"
| "kind_fits I32 v = (- 2147483648 \<le> v \<and> v \<le> 2147483647)"
| "kind_fits I64 v = (- 9223372036854775808 \<le> v \<and> v \<le> 9223372036854775807)"

definition spec_kind :: "int \<Rightarrow> int_kind option" where
  "spec_kind v = find (\<lambda>k. kind_fits k v) [Imm4, I8, I16, I24, I32, I64]"

fun int_entry :: "int_kind \<Rightarrow> int \<Rightarrow> blob" where
  "int_entry Imm4 v = [of_int (241 + v)]"
| "int_entry I8 v = [254, of_int v]"
| "int_entry I16 v = [192, of_int v, of_int (v div 256)]"
| "int_entry I24 v = [240, of_int v, of_int (v div 256), of_int (v div 65536)]"
| "int_entry I32 v = [208, of_int v, of_int (v div 256), of_int (v div 65536), of_int (v div 16777216)]"
| "int_entry I64 v = [224, of_int v, of_int (v div 256), of_int (v div 65536), of_int (v div 16777216),
                      of_int (v div 4294967296), of_int (v div 1099511627776),
                      of_int (v div 281474976710656), of_int (v div 72057594037927936)]"

definition str_entry :: "blob \<Rightarrow> blob" where
  "str_entry s =
     (let n = length s in
      if n \<le> 63 then of_nat n # s
      else if n \<le> 16383 then of_nat (64 + n div 256) # of_nat (n mod 256) # s
      else 128 # of_nat (n div 16777216) # of_nat (n div 65536 mod 256) # of_nat (n div 256 mod 256)
             # of_nat (n mod 256) # s)"

definition spec_coerce :: "blob \<Rightarrow> int option" where
  "spec_coerce s = (if length s = 0 \<or> 32 \<le> length s then None else string2ll s)"

definition spec_body :: "blob \<Rightarrow> blob" where
  "spec_body s =
     (case spec_coerce s of
        None \<Rightarrow> str_entry s
      | Some v \<Rightarrow> (case spec_kind v of None \<Rightarrow> str_entry s | Some k \<Rightarrow> int_entry k v))"

lemma string2ll_range:
  "string2ll s = Some v \<Longrightarrow> - 9223372036854775808 \<le> v \<and> v \<le> 9223372036854775807"
  by (auto simp: string2ll_def split: list.splits if_splits option.splits)

lemma of_nat_byte_mod: "(of_nat (n mod 256) :: byte) = of_nat n"
  by (simp add: word_unat_eq_iff unat_of_nat)

lemma byte_64_or: "n < 64 \<Longrightarrow> (64::byte) OR (of_nat n AND 63) = of_nat (64 + n)"
proof -
  assume a: "n < 64"
  have "unat ((64::byte) OR (of_nat n AND 63)) = 64 + n" using a by (simp add: unat_64_or unat_of_nat)
  moreover have "unat (of_nat (64 + n) :: byte) = 64 + n" using a unat_of_nat_byte[of "64 + n"] by simp
  ultimately show ?thesis by (simp add: word_unat_eq_iff)
qed

lemma zipEncodeLength_str_entry: "zipEncodeLength 0 (length s) @ s = str_entry s"
proof -
  have "length s \<le> 16383 \<Longrightarrow> length s div 256 < 64" by simp
  then show ?thesis
    using byte_64_or[of "length s div 256"] of_nat_byte_mod[of "length s"]
      of_nat_byte_mod[of "length s div 256"] of_nat_byte_mod[of "length s div 65536"]
    by (simp add: zipEncodeLength_str str_entry_def Let_def)
qed

lemma div_256_chain:
  "(v::int) div 256 div 256 = v div 65536"
  "v div 65536 div 256 = v div 16777216"
  "v div 16777216 div 256 = v div 4294967296"
  "v div 4294967296 div 256 = v div 1099511627776"
  "v div 1099511627776 div 256 = v div 281474976710656"
  "v div 281474976710656 div 256 = v div 72057594037927936"
  by (simp_all only: zdiv_zmult2_eq[symmetric] zero_le_numeral mult_numeral_1 numeral_times_numeral
       semiring_norm)

lemma le_int_bytes:
  "le_int 2 v = [of_int v, of_int (v div 256)]"
  "le_int 3 v = [of_int v, of_int (v div 256), of_int (v div 65536)]"
  "le_int 4 v = [of_int v, of_int (v div 256), of_int (v div 65536), of_int (v div 16777216)]"
  "le_int 8 v = [of_int v, of_int (v div 256), of_int (v div 65536), of_int (v div 16777216),
                      of_int (v div 4294967296), of_int (v div 1099511627776),
                      of_int (v div 281474976710656), of_int (v div 72057594037927936)]"
  by (simp_all add: eval_nat_numeral div_256_chain)

lemma shift24: "- 8388608 \<le> v \<Longrightarrow> v \<le> 8388607 \<Longrightarrow> sint_n 32 (v * 256) div 256 = v"
  by (simp add: sint_n_id)

lemma val_body_spec: "val_body s = spec_body s"
proof (cases "zipTryEncoding s")
  case None
  then have "spec_coerce s = None"
    by (auto simp: zipTryEncoding_def spec_coerce_def split: if_splits option.splits)
  then show ?thesis using None by (simp add: val_body_def spec_body_def zipEncodeLength_str_entry)
next
  case (Some a)
  obtain v enc where a: "a = (v, enc)" by (cases a) auto
  have c: "spec_coerce s = Some v" and s2: "string2ll s = Some v"
    using Some a by (auto simp: zipTryEncoding_def spec_coerce_def split: if_splits option.splits)
  note r = string2ll_range[OF s2]
  consider (imm) "0 \<le> v" "v \<le> 12"
    | (i8) "\<not> (0 \<le> v \<and> v \<le> 12)" "- 128 \<le> v" "v \<le> 127"
    | (i16) "\<not> (- 128 \<le> v \<and> v \<le> 127)" "- 32768 \<le> v" "v \<le> 32767"
    | (i24) "\<not> (- 32768 \<le> v \<and> v \<le> 32767)" "- 8388608 \<le> v" "v \<le> 8388607"
    | (i32) "\<not> (- 8388608 \<le> v \<and> v \<le> 8388607)" "- 2147483648 \<le> v" "v \<le> 2147483647"
    | (i64) "\<not> (- 2147483648 \<le> v \<and> v \<le> 2147483647)"
    by linarith
  then show ?thesis
  proof cases
    case imm
    then have "enc = 241 + of_int v" "spec_kind v = Some Imm4"
      using Some a by (auto simp: zipTryEncoding_def spec_kind_def split: if_splits option.splits)
    moreover have "int_payload v (241 + of_int v) = []"
      using imm_cases[OF imm] by (auto simp: int_payload_def)
    ultimately show ?thesis using Some a c by (simp add: val_body_def spec_body_def)
  next
    case i8
    then have "enc = 254" "spec_kind v = Some I8"
      using Some a by (auto simp: zipTryEncoding_def spec_kind_def split: if_splits option.splits)
    then show ?thesis using Some a c by (simp add: val_body_def spec_body_def int_payload_def)
  next
    case i16
    then have "enc = 192" "spec_kind v = Some I16"
      using Some a by (auto simp: zipTryEncoding_def spec_kind_def split: if_splits option.splits)
    then show ?thesis using Some a c
      by (simp add: val_body_def spec_body_def int_payload_def le_int_bytes del: le_int.simps)
  next
    case i24
    then have "enc = 240" "spec_kind v = Some I24"
      using Some a by (auto simp: zipTryEncoding_def spec_kind_def split: if_splits option.splits)
    then show ?thesis using Some a c shift24[OF i24(2,3)]
      by (simp add: val_body_def spec_body_def int_payload_def le_int_bytes del: le_int.simps)
  next
    case i32
    then have "enc = 208" "spec_kind v = Some I32"
      using Some a by (auto simp: zipTryEncoding_def spec_kind_def split: if_splits option.splits)
    then show ?thesis using Some a c
      by (simp add: val_body_def spec_body_def int_payload_def le_int_bytes del: le_int.simps)
  next
    case i64
    then have "enc = 224" "spec_kind v = Some I64"
      using Some a r by (auto simp: zipTryEncoding_def spec_kind_def split: if_splits option.splits)
    then show ?thesis using Some a c
      by (simp add: val_body_def spec_body_def int_payload_def le_int_bytes del: le_int.simps)
  qed
qed

lemma byte_241: "0 \<le> v \<Longrightarrow> v \<le> 12 \<Longrightarrow> unat (of_int (241 + v) :: byte) = nat (241 + v)"
proof -
  assume a: "0 \<le> v" "v \<le> 12"
  have "(of_int (241 + v) :: byte) = of_nat (nat (241 + v))" using a by simp
  then show ?thesis using a by (simp add: unat_of_nat del: of_nat_nat of_int_add)
qed

lemma body_spec_str_entry: "length s < 4294967296 \<Longrightarrow> body_spec (str_entry s)"
proof -
  assume a: "length s < 4294967296"
  define n where "n = length s"
  consider (a) "n \<le> 63" | (b) "63 < n" "n \<le> 16383" | (c) "16383 < n" by linarith
  then show ?thesis
  proof cases
    case a
    then show ?thesis by (simp add: str_entry_def body_spec_def n_def[symmetric] unat_of_nat)
  next
    case b
    then have "n div 256 < 64" by simp
    then have "unat (of_nat (64 + n div 256) :: byte) = 64 + n div 256"
      using unat_of_nat_byte[of "64 + n div 256"] by simp
    then show ?thesis using b
      by (simp add: str_entry_def body_spec_def n_def[symmetric] Let_def unat_of_nat)
  next
    case c
    define A where "A = n div 16777216"
    define X2 where "X2 = n div 65536"
    define X1 where "X1 = n div 256"
    define c2 where "c2 = X2 mod 256"
    define c1 where "c1 = X1 mod 256"
    define c0 where "c0 = n mod 256"
    have 1: "n = X1 * 256 + c0" by (simp add: X1_def c0_def)
    have "X1 div 256 = X2" using div_mult2_eq[of n 256 256] by (simp add: X1_def X2_def)
    then have 2: "X1 = X2 * 256 + c1" using div_mult_mod_eq[of X1 256] by (simp add: c1_def)
    have "X2 div 256 = A" using div_mult2_eq[of n 65536 256] by (simp add: X2_def A_def)
    then have 3: "X2 = A * 256 + c2" using div_mult_mod_eq[of X2 256] by (simp add: c2_def)
    have e: "A * 16777216 + c2 * 65536 + c1 * 256 + c0 = n" using 1 2 3 by linarith
    have "A < 256" using a by (simp add: n_def A_def)
    then have u: "unat (of_nat A :: byte) = A" by (simp add: unat_of_nat)
    have v: "unat (of_nat c2 :: byte) = c2" "unat (of_nat c1 :: byte) = c1" "unat (of_nat c0 :: byte) = c0"
      by (simp_all add: unat_of_nat c2_def c1_def c0_def)
    have "str_entry s = 128 # of_nat A # of_nat c2 # of_nat c1 # of_nat c0 # s"
      using c by (simp add: str_entry_def n_def[symmetric] Let_def A_def c2_def c1_def c0_def X2_def X1_def)
    then show ?thesis using e u v by (simp add: body_spec_def n_def)
  qed
qed

lemma body_spec_int_entry: "spec_kind v = Some k \<Longrightarrow> body_spec (int_entry k v)"
  using byte_241[of v]
  by (cases k) (auto simp: body_spec_def spec_kind_def Let_def split: if_splits)

lemma body_spec_spec_body: "length s < 4294967296 \<Longrightarrow> body_spec (spec_body s)"
  using body_spec_str_entry[of s] body_spec_int_entry
  by (auto simp: spec_body_def split: option.splits)

section \<open>The operations on a list of entries\<close>

text \<open>
  The spec's insert and delete, on the list of entries: \<open>ins_spec es j s\<close> puts the entry for
  \<open>s\<close> before the entry \<open>j\<close> (at the end for \<open>j = length es\<close>), \<open>del_spec es j n\<close> removes the
  entries \<open>j\<close> to \<open>j + n - 1\<close>. In both the entry after the change gets the length of its new
  predecessor in a \<open>prevLen\<close> field of the width that this length needs (\<open>relink\<close>), and
  the cascade update (\<open>cascade_spec\<close>) runs on the entries that follow.
\<close>

definition new_spec :: "nat \<Rightarrow> blob \<Rightarrow> ent" where
  "new_spec pl s = (254 \<le> pl, pl, spec_body s)"

fun relink :: "nat \<Rightarrow> ent list \<Rightarrow> ent list" where
  "relink l [] = []"
| "relink l ((lg, pl, b) # post) = (254 \<le> l, l, b) # cascade_spec (length (eb (254 \<le> l, l, b))) post"

definition ins_spec :: "ent list \<Rightarrow> nat \<Rightarrow> blob \<Rightarrow> ent list" where
  "ins_spec es j s =
     take j es @ new_spec (plen (take j es)) s
       # relink (length (eb (new_spec (plen (take j es)) s))) (drop j es)"

definition del_spec :: "ent list \<Rightarrow> nat \<Rightarrow> nat \<Rightarrow> ent list" where
  "del_spec es j n =
     (if n = 0 \<or> length es \<le> j then es
      else take j es @ relink (plen (take j es)) (drop (j + n) es))"

definition linked :: "ent list \<Rightarrow> bool" where
  "linked es = (case es of [] \<Rightarrow> True | e # r \<Rightarrow> chain (length (eb e)) r)"

lemma new_ent_spec: "new_ent pl s = new_spec pl s"
  by (simp add: new_ent_def new_spec_def val_body_spec)

lemma cascade_spec_length [simp]: "length (cascade_spec l es) = length es"
  by (induction l es rule: cascade_spec.induct) auto

lemma cascade_spec_size: "length (ebs (cascade_spec l es)) \<le> length (ebs es) + 4 * length es"
  by (induction l es rule: cascade_spec.induct) (auto simp: length_eb)

lemma cascade_spec_spec:
  "list_all ent_spec es \<Longrightarrow> l < 4294967296 \<Longrightarrow> length (ebs es) + 4 < 4294967296 \<Longrightarrow>
   list_all ent_spec (cascade_spec l es)"
proof (induction l es rule: cascade_spec.induct)
  case (1 l)
  then show ?case by simp
next
  case (2 l lg pl b rest)
  show ?case
  proof (cases "pl = l")
    case True
    then show ?thesis using 2 by simp
  next
    case False
    show ?thesis
    proof (cases "\<not> lg \<and> 254 \<le> l")
      case True
      have "list_all ent_spec (cascade_spec (5 + length b) rest)"
        using 2 False True by (intro 2(1)) (auto simp: length_eb)
      moreover have "ent_spec (True, l, b)" using 2(2,3) by (simp add: ent_spec_def)
      ultimately show ?thesis using False True by simp
    next
      case F2: False
      have "ent_spec (lg, l, b)" using 2(2,3) F2 by (auto simp add: ent_spec_def)
      then show ?thesis using 2(2) False F2 by auto
    qed
  qed
qed

lemma chain_linked: "chain l es \<Longrightarrow> linked es"
  by (cases es) (auto simp: linked_def)

lemma cascade_spec_links: "linked es \<Longrightarrow> chain l (cascade_spec l es)"
proof (induction l es rule: cascade_spec.induct)
  case (1 l)
  then show ?case by simp
next
  case (2 l lg pl b rest)
  have c: "chain (length (eb (lg, pl, b))) rest" using 2(2) by (simp add: linked_def)
  show ?case
  proof (cases "pl = l")
    case True
    then show ?thesis using c by simp
  next
    case False
    show ?thesis
    proof (cases "\<not> lg \<and> 254 \<le> l")
      case True
      have "chain (5 + length b) (cascade_spec (5 + length b) rest)"
        using False True chain_linked[OF c] by (intro 2(1)) auto
      then show ?thesis using False True by (simp add: length_eb)
    next
      case F2: False
      then show ?thesis using False c by (auto simp add: length_eb)
    qed
  qed
qed

lemma relink_length [simp]: "length (relink l es) = length es"
  by (cases "(l, es)" rule: relink.cases) auto

lemma relink_size: "length (ebs (relink l es)) \<le> length (ebs es) + 4 * length es"
proof (cases "(l, es)" rule: relink.cases)
  case (1 l')
  then show ?thesis by simp
next
  case (2 l' lg pl b post)
  then show ?thesis
    using cascade_spec_size[of "length (eb (254 \<le> l, l, b))" post] by (auto simp: length_eb)
qed

lemma relink_spec:
  assumes "list_all ent_spec es" "l < 4294967296" "length (ebs es) + 8 < 4294967296"
  shows "list_all ent_spec (relink l es)"
proof (cases "(l, es)" rule: relink.cases)
  case (1 l')
  then show ?thesis by simp
next
  case (2 l' lg pl b post)
  have "list_all ent_spec (cascade_spec (length (eb (254 \<le> l, l, b))) post)"
    using assms 2 by (intro cascade_spec_spec) (auto simp: length_eb)
  moreover have "ent_spec (254 \<le> l, l, b)" using assms 2 by (auto simp: ent_spec_def)
  ultimately show ?thesis using 2 by simp
qed

lemma relink_chain: "linked es \<Longrightarrow> chain l (relink l es)"
proof (cases "(l, es)" rule: relink.cases)
  case (1 l')
  then show ?thesis by simp
next
  case (2 l' lg pl b post)
  assume "linked es"
  then have "chain (length (eb (lg, pl, b))) post" using 2 by (simp add: linked_def)
  from cascade_spec_links[OF chain_linked[OF this]] show ?thesis using 2 by simp
qed

lemma chain_append:
  "chain l (xs @ ys) = (chain l xs \<and> chain (if xs = [] then l else length (eb (last xs))) ys)"
  by (induction xs arbitrary: l) auto

lemma chain0_append: "chain 0 (xs @ ys) = (chain 0 xs \<and> chain (plen xs) ys)"
  by (simp add: chain_append plen_def)

lemma length_spec_body: "length (spec_body s) \<le> length s + 9"
proof -
  have "length (str_entry s) \<le> length s + 9" by (simp add: str_entry_def Let_def)
  moreover have "\<And>k v. spec_coerce s = Some v \<Longrightarrow> length (int_entry k v) \<le> length s + 9"
  proof -
    fix k v
    show "length (int_entry k v) \<le> length s + 9" by (cases k) auto
  qed
  ultimately show ?thesis by (auto simp: spec_body_def split: option.splits)
qed

lemma length_new_spec: "length (eb (new_spec pl s)) \<le> length s + 14"
  using length_spec_body[of s] by (simp add: new_spec_def length_eb)

lemma new_spec_ok: "pl < 4294967296 \<Longrightarrow> length s < 4294967296 \<Longrightarrow> ent_spec (new_spec pl s)"
  using body_spec_spec_body[of s] by (auto simp: new_spec_def ent_spec_def)

lemma list_all_take_drop:
  "list_all P es \<Longrightarrow> list_all P (take j es) \<and> list_all P (drop j es)"
  by (metis append_take_drop_id list_all_append)

lemma ebs_split: "length (ebs es) = length (ebs (take j es)) + length (ebs (drop j es))"
  by (metis append_take_drop_id ebs_append length_append)

lemma wf_count: "wf c es \<Longrightarrow> c < 65536"
  by (auto simp: wf_def)

lemma ins_spec_wf:
  assumes w: "wf c es" and j: "j \<le> length es"
    and B: "3 * (11 + length (ebs es)) + length s < 4294967296"
  shows "wf (incr_count c 1) (ins_spec es j s)"
    and "incr_count c 1 = (if c = 65535 then c else length (ins_spec es j s))"
    and "length (ins_spec es j s) = Suc (length es)"
proof -
  define pre where "pre = take j es"
  define post where "post = drop j es"
  define ne where "ne = new_spec (plen pre) s"
  have es: "es = pre @ post" by (simp add: pre_def post_def)
  have isp: "ins_spec es j s = pre @ ne # relink (length (eb ne)) post"
    by (simp add: ins_spec_def pre_def post_def ne_def)
  from w have sp: "list_all ent_spec es" and ch: "chain 0 es"
    and cnt: "c = 65535 \<or> c = length es \<and> c < 65535" by (simp_all add: wf_def)
  have spp: "list_all ent_spec pre" "list_all ent_spec post"
    using list_all_take_drop[OF sp, of j] by (simp_all add: pre_def post_def)
  have chp: "chain 0 pre" "chain (plen pre) post" using ch by (simp_all add: es chain0_append)
  have sz: "length (ebs es) = length (ebs pre) + length (ebs post)" by (simp add: es)
  have pl: "plen pre < 4294967296" using plen_le[of pre] sz B by simp
  have ne: "ent_spec ne" unfolding ne_def by (rule new_spec_ok[OF pl]) (use B in simp)
  have lne: "length (eb ne) \<le> length s + 14" unfolding ne_def by (rule length_new_spec)
  have rl: "list_all ent_spec (relink (length (eb ne)) post)"
    by (rule relink_spec[OF spp(2)]) (use lne B sz in simp_all)
  have rc: "chain (length (eb ne)) (relink (length (eb ne)) post)"
    by (rule relink_chain[OF chain_linked[OF chp(2)]])
  have c1: "chain 0 (ins_spec es j s)"
    using chp(1) rc by (simp add: isp chain0_append ne_def new_spec_def)
  have lp: "2 * length post \<le> length (ebs post)" by (rule ebs_len_ge[OF list_spec_ok[OF spp(2)]])
  have s1: "11 + length (ebs (ins_spec es j s)) < 4294967296"
    using relink_size[of "length (eb ne)" post] lne lp sz B by (simp add: isp)
  show len: "length (ins_spec es j s) = Suc (length es)"
    using j unfolding isp by (simp add: pre_def post_def)
  show ic: "incr_count c 1 = (if c = 65535 then c else length (ins_spec es j s))"
    using cnt by (auto simp: incr_count_def len nat_add_distrib)
  have "incr_count c 1 = 65535 \<or> incr_count c 1 = length (ins_spec es j s) \<and> incr_count c 1 < 65535"
    using cnt ic len by auto
  then show "wf (incr_count c 1) (ins_spec es j s)"
    using c1 s1 spp(1) ne rl by (simp add: wf_def) (simp add: isp)
qed

lemma del_spec_wf:
  assumes w: "wf c es" and j: "j < length es" and n: "0 < n"
    and B: "3 * (11 + length (ebs es)) < 4294967296"
  shows "wf (incr_count c (- int (min n (length es - j)))) (del_spec es j n)"
    and "incr_count c (- int (min n (length es - j))) = (if c = 65535 then c else length (del_spec es j n))"
    and "length (del_spec es j n) = length es - min n (length es - j)"
proof -
  define pre where "pre = take j es"
  define post where "post = drop (j + n) es"
  define m where "m = min n (length es - j)"
  have ds: "del_spec es j n = pre @ relink (plen pre) post"
    using j n by (simp add: del_spec_def pre_def post_def)
  from w have sp: "list_all ent_spec es" and ch: "chain 0 es"
    and cnt: "c = 65535 \<or> c = length es \<and> c < 65535" by (simp_all add: wf_def)
  have spp: "list_all ent_spec pre" "list_all ent_spec post"
    using list_all_take_drop[OF sp, of j] list_all_take_drop[OF sp, of "j + n"] by (simp_all add: pre_def post_def)
  have chp: "chain 0 pre" using ch chain0_append[of pre "drop j es"] by (simp add: pre_def)
  have "chain (plen (take (j + n) es)) post" using ch chain0_append[of "take (j + n) es" post]
    by (simp add: post_def)
  then have lk: "linked post" by (rule chain_linked)
  have sz1: "length (ebs pre) \<le> length (ebs es)" unfolding pre_def by (rule ebs_take_le)
  have sz2: "length (ebs post) \<le> length (ebs es)" using ebs_split[of es "j + n"] by (simp add: post_def)
  have sz3: "length (ebs pre) + length (ebs post) \<le> length (ebs es)"
  proof -
    have "length (ebs (drop j es)) = length (ebs (take n (drop j es))) + length (ebs (drop n (drop j es)))"
      by (rule ebs_split)
    then have "length (ebs post) \<le> length (ebs (drop j es))" by (simp add: post_def add.commute)
    then show ?thesis using ebs_split[of es j] by (simp add: pre_def)
  qed
  have pl: "plen pre < 4294967296" using plen_le[of pre] sz1 B by simp
  have rl: "list_all ent_spec (relink (plen pre) post)"
    by (rule relink_spec[OF spp(2) pl]) (use sz2 B in simp)
  have rc: "chain (plen pre) (relink (plen pre) post)" by (rule relink_chain[OF lk])
  have c1: "chain 0 (del_spec es j n)" using chp rc by (simp add: ds chain0_append)
  have lp: "2 * length post \<le> length (ebs post)" by (rule ebs_len_ge[OF list_spec_ok[OF spp(2)]])
  have s1: "11 + length (ebs (del_spec es j n)) < 4294967296"
    using relink_size[of "plen pre" post] lp sz3 sz2 B by (simp add: ds)
  show len: "length (del_spec es j n) = length es - min n (length es - j)"
    using j by (auto simp add: ds pre_def post_def min_def)
  have mle: "m \<le> length es" using j by (simp add: m_def)
  have mp: "0 < m" using j n by (simp add: m_def)
  show ic: "incr_count c (- int (min n (length es - j))) = (if c = 65535 then c else length (del_spec es j n))"
  proof (cases "c = 65535")
    case True
    then show ?thesis by (simp add: incr_count_def)
  next
    case False
    then have c: "c = length es" "c < 65535" using cnt by auto
    have "(int c - int m) mod 65536 = int (c - m)" using c mle by (simp add: of_nat_diff)
    then show ?thesis using False c len by (simp add: incr_count_def m_def[symmetric])
  qed
  have "length (del_spec es j n) = length es - m" using len by (simp add: m_def)
  then have "length (del_spec es j n) < length es" using mp mle by linarith
  then have "incr_count c (- int (min n (length es - j))) = 65535
      \<or> incr_count c (- int (min n (length es - j))) = length (del_spec es j n)
         \<and> incr_count c (- int (min n (length es - j))) < 65535"
    using cnt ic by auto
  then show "wf (incr_count c (- int (min n (length es - j)))) (del_spec es j n)"
    using c1 s1 spp(1) rl by (simp add: wf_def) (simp add: ds)
qed

text \<open>\<open>__ziplistInsert\<close> and \<open>__ziplistDelete\<close> on a well-formed blob are \<open>ins_spec\<close> and
  \<open>del_spec\<close> on its entries.\<close>

lemma chain_stored:
  assumes "chain 0 es" "j < length es"
  shows "fst (snd (es ! j)) = plen (take j es)" "chain (length (eb (es ! j))) (drop (Suc j) es)"
proof -
  have es: "es = take j es @ es ! j # drop (Suc j) es" using assms(2) by (simp add: id_take_nth_drop)
  have "chain 0 (take j es @ es ! j # drop (Suc j) es)" using assms(1) es by simp
  then have "chain (plen (take j es)) (es ! j # drop (Suc j) es)" by (simp only: chain0_append)
  then show "fst (snd (es ! j)) = plen (take j es)" "chain (length (eb (es ! j))) (drop (Suc j) es)"
    by simp_all
qed

lemma insert_at:
  assumes w: "wf c es" and j: "j \<le> length es"
    and nobug: "j < length es \<Longrightarrow> fst (es ! j) \<Longrightarrow> 4 \<le> length (eb (new_spec (plen (take j es)) s))"
    and B: "3 * (11 + length (ebs es)) + length s < 4294967296"
  shows "uu_ziplistInsert (zl_of c es) (pos es j) s = Some (zl_of (incr_count c 1) (ins_spec es j s))"
proof (cases "j = length es")
  case True
  from w have ok: "list_all ent_ok es" by (simp add: wf_def list_spec_ok)
  have b: "11 + length (ebs es) + length (eb (new_ent (plen es) s)) < 4294967296"
    using length_new_spec[of "plen es" s] B by (simp add: new_ent_spec)
  from insert_end[OF ok wf_count[OF w] b] show ?thesis
    using True by (simp add: pos_def ins_spec_def new_ent_spec)
next
  case False
  then have jl: "j < length es" using j by simp
  define pre where "pre = take j es"
  define post where "post = drop (Suc j) es"
  obtain lg pl b where e: "es ! j = (lg, pl, b)" by (cases "es ! j") auto
  have es: "es = pre @ (lg, pl, b) # post" using id_take_nth_drop[OF jl] e unfolding pre_def post_def by simp
  have dj: "drop j es = (lg, pl, b) # post" using Cons_nth_drop_Suc[OF jl] e unfolding post_def by simp
  from w have ok: "list_all ent_ok es" and ch: "chain 0 es" by (simp_all add: wf_def list_spec_ok)
  have pl: "pl = plen pre" and chp: "chain (length (eb (lg, pl, b))) post"
    using chain_stored[OF ch jl] e by (simp_all add: pre_def post_def)
  define r where "r = length (eb (new_ent pl s))"
  have r: "r = length (eb (new_spec (plen pre) s))" by (simp add: r_def new_ent_spec pl)
  have nb: "lg \<Longrightarrow> 4 \<le> r" using nobug[OF jl] e r by (simp add: pre_def)
  have lp: "2 * length post \<le> length (ebs post)"
    using ok es ebs_len_ge[of post] by simp
  have "length (ebs post) \<le> length (ebs es)" by (simp add: es)
  then have b: "15 + length (ebs (pre @ (lg, pl, b) # post)) + r + 4 * length post < 4294967296"
    using length_new_spec[of "plen pre" s] B lp unfolding r es[symmetric] by simp
  have "uu_ziplistInsert (zl_of c (pre @ (lg, pl, b) # post)) (10 + length (ebs pre)) s =
     Some (zl_of (incr_count c 1)
             (pre @ new_ent pl s # (254 \<le> r, r, b) # cascade_spec (length (eb (254 \<le> r, r, b))) post))"
    by (rule insert_mid[OF _ chp wf_count[OF w] r_def nb b]) (use ok es in simp)
  moreover have "ins_spec es j s = pre @ new_ent pl s # (254 \<le> r, r, b) # cascade_spec (length (eb (254 \<le> r, r, b))) post"
    using dj by (simp add: ins_spec_def pre_def[symmetric] new_ent_spec pl r)
  moreover have "pos es j = 10 + length (ebs pre)" by (simp add: pos_def pre_def)
  ultimately show ?thesis using es by simp
qed

lemma delete_at:
  assumes w: "wf c es" and j: "j < length es" and n: "0 < n"
    and B: "3 * (11 + length (ebs es)) < 4294967296"
  shows "uu_ziplistDelete (zl_of c es) (pos es j) n =
     Some (zl_of (incr_count c (- int (min n (length es - j)))) (del_spec es j n))"
proof -
  define pre where "pre = take j es"
  obtain flg fpl fb where f: "es ! j = (flg, fpl, fb)" by (cases "es ! j") auto
  from w have ok: "list_all ent_ok es" and ch: "chain 0 es" by (simp_all add: wf_def list_spec_ok)
  have fpl: "fpl = plen pre" using chain_stored(1)[OF ch j] f by (simp add: pre_def)
  have p0: "pos es j = 10 + length (ebs pre)" by (simp add: pos_def pre_def)
  show ?thesis
  proof (cases "j + n < length es")
    case True
    define del where "del = take (n - 1) (drop (Suc j) es)"
    define post where "post = drop (Suc (j + n)) es"
    obtain lg pl b where e: "es ! (j + n) = (lg, pl, b)" by (cases "es ! (j + n)") auto
    have d1: "drop j es = (flg, fpl, fb) # drop (Suc j) es" using Cons_nth_drop_Suc[OF j] f by simp
    have a1: "drop (Suc j) es = del @ drop (n - 1) (drop (Suc j) es)"
      unfolding del_def by (simp only: append_take_drop_id)
    have a2: "drop (n - 1) (drop (Suc j) es) = drop (j + n) es" using n by (simp add: add.commute)
    have d3: "drop (j + n) es = (lg, pl, b) # post"
      using Cons_nth_drop_Suc[OF True] e unfolding post_def by simp
    have d2: "drop (Suc j) es = del @ (lg, pl, b) # post" using a1 unfolding a2 d3 .
    have es: "es = pre @ (flg, fpl, fb) # del @ (lg, pl, b) # post"
      using d1 d2 by (metis append_take_drop_id pre_def)
    have ld: "length del = n - 1" using True n by (simp add: del_def)
    have num: "n = Suc (length del)" using ld n by simp
    have chp: "chain (length (eb (lg, pl, b))) post"
      using chain_stored(2)[OF ch True] e by (simp add: post_def)
    have lp: "2 * length post \<le> length (ebs post)" using ok es ebs_len_ge[of post] by simp
    have "length (ebs post) \<le> length (ebs es)" by (subst es) simp
    then have b: "11 + length (ebs (pre @ (flg, fpl, fb) # del @ (lg, pl, b) # post)) + 4 * length post < 4294967296"
      using B lp unfolding es[symmetric] by simp
    have "uu_ziplistDelete (zl_of c (pre @ (flg, fpl, fb) # del @ (lg, pl, b) # post)) (10 + length (ebs pre)) n =
       Some (zl_of (incr_count c (- int n))
             (pre @ (254 \<le> fpl, fpl, b) # cascade_spec (length (eb (254 \<le> fpl, fpl, b))) post))"
      by (rule delete_mid[OF _ num chp wf_count[OF w] b]) (use ok es in simp)
    moreover have "del_spec es j n = pre @ (254 \<le> fpl, fpl, b) # cascade_spec (length (eb (254 \<le> fpl, fpl, b))) post"
      using j n d3 by (simp add: del_spec_def pre_def[symmetric] fpl)
    moreover have "min n (length es - j) = n" using True by simp
    ultimately show ?thesis using es p0 by simp
  next
    case False
    define del where "del = drop (Suc j) es"
    have d1: "drop j es = (flg, fpl, fb) # del" using Cons_nth_drop_Suc[OF j] f unfolding del_def by simp
    have es: "es = pre @ (flg, fpl, fb) # del" using d1 by (metis append_take_drop_id pre_def)
    have ld: "Suc (length del) = length es - j" using j by (simp add: del_def)
    have num: "Suc (length del) \<le> n" using False ld by simp
    have b: "11 + length (ebs (pre @ (flg, fpl, fb) # del)) < 4294967296"
      using B unfolding es[symmetric] by simp
    have "uu_ziplistDelete (zl_of c (pre @ (flg, fpl, fb) # del)) (10 + length (ebs pre)) n =
       Some (zl_of (incr_count c (- int (Suc (length del)))) pre)"
      by (rule delete_end[OF _ num fpl wf_count[OF w] b]) (use ok es in simp)
    moreover have "del_spec es j n = pre" using j n False by (simp add: del_spec_def pre_def)
    moreover have "min n (length es - j) = Suc (length del)" using False ld by simp
    ultimately show ?thesis using es p0 by simp
  qed
qed

section \<open>Sequences of operations\<close>

text \<open>
  The operations of the spec as a caller runs them: \<open>push\<close> at either end; \<open>insertBefore\<close> and
  \<open>delete\<close> at the pointer that \<open>ziplistIndex\<close> gives for an index (nothing is done when it
  gives \<open>NULL\<close>); \<open>deleteRange\<close>. \<open>run_op\<close> calls the functions of the source, \<open>apply_op\<close> is
  the operation on the list of entries. \<open>op_ok\<close> bounds the size of the blob (after the
  operation and its cascade it stays below \<open>2 ^ 32\<close> bytes) and, for an insertion before an
  entry whose \<open>prevLen\<close> field has 5 bytes, asks the new entry to have at least 4 bytes.
\<close>

datatype zl_op = OpPush zl_where blob | OpInsert int blob | OpDelete int | OpDeleteRange nat nat

definition run_op :: "blob \<Rightarrow> zl_op \<Rightarrow> blob option" where
  "run_op zl op =
     (case op of
        OpPush w s \<Rightarrow> ziplistPush zl s w
      | OpInsert i s \<Rightarrow>
          do { po \<leftarrow> ziplistIndex zl i;
               case po of None \<Rightarrow> Some zl | Some p \<Rightarrow> ziplistInsert zl p s }
      | OpDelete i \<Rightarrow>
          do { po \<leftarrow> ziplistIndex zl i;
               case po of None \<Rightarrow> Some zl
               | Some p \<Rightarrow> do { (zl1, p1) \<leftarrow> ziplistDelete zl p; Some zl1 } }
      | OpDeleteRange j n \<Rightarrow> ziplistDeleteRange zl j n)"

fun run_ops :: "blob \<Rightarrow> zl_op list \<Rightarrow> blob option" where
  "run_ops zl [] = Some zl"
| "run_ops zl (op # ops) = do { zl1 \<leftarrow> run_op zl op; run_ops zl1 ops }"

definition idx :: "ent list \<Rightarrow> int \<Rightarrow> nat option" where
  "idx es i =
     (if 0 \<le> i \<and> i < int (length es) then Some (nat i)
      else if i < 0 \<and> - int (length es) \<le> i then Some (nat (int (length es) + i))
      else None)"

fun apply_op :: "ent list \<Rightarrow> zl_op \<Rightarrow> ent list" where
  "apply_op es (OpPush w s) = ins_spec es (if w = ZIPLIST_HEAD then 0 else length es) s"
| "apply_op es (OpInsert i s) = (case idx es i of None \<Rightarrow> es | Some j \<Rightarrow> ins_spec es j s)"
| "apply_op es (OpDelete i) = (case idx es i of None \<Rightarrow> es | Some j \<Rightarrow> del_spec es j 1)"
| "apply_op es (OpDeleteRange j n) = del_spec es j n"

definition room :: "ent list \<Rightarrow> blob \<Rightarrow> bool" where
  "room es s = (3 * (11 + length (ebs es)) + length s < 4294967296)"

definition ins_ok :: "ent list \<Rightarrow> nat \<Rightarrow> blob \<Rightarrow> bool" where
  "ins_ok es j s =
     (length es \<le> j \<or> \<not> fst (es ! j) \<or> 4 \<le> length (eb (new_spec (plen (take j es)) s)))"

fun op_ok :: "ent list \<Rightarrow> zl_op \<Rightarrow> bool" where
  "op_ok es (OpPush w s) = (room es s \<and> ins_ok es (if w = ZIPLIST_HEAD then 0 else length es) s)"
| "op_ok es (OpInsert i s) =
     (room es s \<and> (case idx es i of None \<Rightarrow> True | Some j \<Rightarrow> ins_ok es j s))"
| "op_ok es (OpDelete i) = room es []"
| "op_ok es (OpDeleteRange j n) = (room es [] \<and> j < 2147483648)"

fun ops_ok :: "ent list \<Rightarrow> zl_op list \<Rightarrow> bool" where
  "ops_ok es [] = True"
| "ops_ok es (op # ops) = (op_ok es op \<and> ops_ok (apply_op es op) ops)"

definition count_after :: "nat \<Rightarrow> ent list \<Rightarrow> nat" where
  "count_after c es = (if c = 65535 then 65535 else length es)"

fun counts :: "nat \<Rightarrow> ent list \<Rightarrow> zl_op list \<Rightarrow> nat" where
  "counts c es [] = c"
| "counts c es (op # ops) = counts (count_after c (apply_op es op)) (apply_op es op) ops"

lemma ziplistNew_zl_of: "ziplistNew = zl_of 0 []"
  by (simp add: ziplistNew_def zl_of_def hdr_def)

lemma wf_Nil: "wf 0 []"
  by (simp add: wf_def)

lemma wf_facts:
  assumes "wf c es"
  shows "list_all ent_ok es" "chain 0 es" "11 + length (ebs es) < 4294967296" "c < 65536"
    "c = 65535 \<or> c = length es \<and> c < 65535"
  using assms by (auto simp: wf_def list_spec_ok)

lemma index_idx:
  assumes "wf c es"
  shows "ziplistIndex (zl_of c es) i = Some (map_option (pos es) (idx es i))"
  using ziplistIndex_zl_of[OF wf_facts(1-3)[OF assms], of c i] by (simp add: idx_def)

lemma idx_lt: "idx es i = Some j \<Longrightarrow> j < length es"
  by (auto simp: idx_def split: if_splits)

lemma count_same: "wf c es \<Longrightarrow> count_after c es = c"
  by (auto simp: count_after_def wf_def)

lemma delete_none:
  assumes w: "wf c es" and j: "j < length es"
  shows "uu_ziplistDelete (zl_of c es) (pos es j) 0 = Some (zl_of c es)"
proof -
  let ?H = "hdr (11 + length (ebs es)) (tailpos es) c"
  have z: "zl_of c es = ?H @ ebs es @ [255]" by (simp add: zl_of_def)
  have L: "length (ebs es) < 4294967296" using wf_facts(3)[OF w] by simp
  note f = entry_facts[OF _ wf_facts(1)[OF w] j L, of ?H "[255]"]
  from f(1) obtain x where x: "rd (zl_of c es) (pos es j) = Some x" unfolding z by auto
  from f(5) obtain fe where fe: "zipEntry (zl_of c es) (pos es j) = Some fe" "ptr fe = pos es j"
    unfolding z by auto
  show ?thesis using x fe by (simp add: uu_ziplistDelete_def)
qed

lemma run_insert:
  assumes w: "wf c es" and j: "j \<le> length es" and r: "room es s" and ok: "ins_ok es j s"
  shows "uu_ziplistInsert (zl_of c es) (pos es j) s = Some (zl_of (count_after c (ins_spec es j s)) (ins_spec es j s))"
    and "wf (count_after c (ins_spec es j s)) (ins_spec es j s)"
proof -
  have B: "3 * (11 + length (ebs es)) + length s < 4294967296" using r by (simp add: room_def)
  have nb: "j < length es \<Longrightarrow> fst (es ! j) \<Longrightarrow> 4 \<le> length (eb (new_spec (plen (take j es)) s))"
    using ok by (auto simp: ins_ok_def)
  have c: "incr_count c 1 = count_after c (ins_spec es j s)"
    using ins_spec_wf(2)[OF w j B] by (simp add: count_after_def)
  show "uu_ziplistInsert (zl_of c es) (pos es j) s = Some (zl_of (count_after c (ins_spec es j s)) (ins_spec es j s))"
    using insert_at[OF w j nb B] c by simp
  show "wf (count_after c (ins_spec es j s)) (ins_spec es j s)"
    using ins_spec_wf(1)[OF w j B] c by simp
qed

lemma run_delete:
  assumes w: "wf c es" and j: "j < length es" and r: "room es []"
  shows "uu_ziplistDelete (zl_of c es) (pos es j) n = Some (zl_of (count_after c (del_spec es j n)) (del_spec es j n))"
    and "wf (count_after c (del_spec es j n)) (del_spec es j n)"
proof -
  have B: "3 * (11 + length (ebs es)) < 4294967296" using r by (simp add: room_def)
  have "uu_ziplistDelete (zl_of c es) (pos es j) n = Some (zl_of (count_after c (del_spec es j n)) (del_spec es j n))
     \<and> wf (count_after c (del_spec es j n)) (del_spec es j n)"
  proof (cases "n = 0")
    case True
    then have "del_spec es j n = es" by (simp add: del_spec_def)
    then show ?thesis using delete_none[OF w j] True w count_same[OF w] by simp
  next
    case False
    then have n: "0 < n" by simp
    have c: "incr_count c (- int (min n (length es - j))) = count_after c (del_spec es j n)"
      using del_spec_wf(2)[OF w j n B] by (simp add: count_after_def)
    show ?thesis using delete_at[OF w j n B] del_spec_wf(1)[OF w j n B] c by simp
  qed
  then show "uu_ziplistDelete (zl_of c es) (pos es j) n = Some (zl_of (count_after c (del_spec es j n)) (del_spec es j n))"
    and "wf (count_after c (del_spec es j n)) (del_spec es j n)" by simp_all
qed

lemma run_op_step:
  assumes w: "wf c es" and ok: "op_ok es op"
  shows "run_op (zl_of c es) op = Some (zl_of (count_after c (apply_op es op)) (apply_op es op))
     \<and> wf (count_after c (apply_op es op)) (apply_op es op)"
proof (cases op)
  case (OpPush wh s)
  define j where "j = (if wh = ZIPLIST_HEAD then 0 else length es)"
  have r: "room es s" "ins_ok es j s" using ok OpPush by (simp_all add: j_def)
  have j: "j \<le> length es" by (simp add: j_def)
  have bts: "ZIPLIST_BYTES (zl_of c es) = Some (11 + length (ebs es))"
    unfolding zl_of_def by (rule H_bytes[OF wf_facts(3)[OF w]])
  have "ziplistPush (zl_of c es) s wh = uu_ziplistInsert (zl_of c es) (pos es j) s"
    using bts by (simp add: ziplistPush_def j_def pos_def)
  then show ?thesis using run_insert[OF w j r] OpPush by (simp add: run_op_def j_def)
next
  case (OpInsert i s)
  show ?thesis
  proof (cases "idx es i")
    case None
    then show ?thesis using OpInsert w index_idx[OF w, of i] count_same[OF w] by (simp add: run_op_def)
  next
    case (Some j)
    have r: "room es s" "ins_ok es j s" using ok OpInsert Some by simp_all
    have j: "j \<le> length es" using idx_lt[OF Some] by simp
    show ?thesis using run_insert[OF w j r] OpInsert Some index_idx[OF w, of i]
      by (simp add: run_op_def ziplistInsert_def)
  qed
next
  case (OpDelete i)
  show ?thesis
  proof (cases "idx es i")
    case None
    then show ?thesis using OpDelete w index_idx[OF w, of i] count_same[OF w] by (simp add: run_op_def)
  next
    case (Some j)
    have r: "room es []" using ok OpDelete by simp
    show ?thesis using run_delete[OF w idx_lt[OF Some] r, of 1] OpDelete Some index_idx[OF w, of i]
      by (simp add: run_op_def ziplistDelete_def)
  qed
next
  case (OpDeleteRange j n)
  have r: "room es []" and j31: "j < 2147483648" using ok OpDeleteRange by simp_all
  have sj: "sint_n 32 (int j) = int j" using j31 by (intro sint_n_id) simp_all
  show ?thesis
  proof (cases "j < length es")
    case True
    then have "idx es (int j) = Some j" by (simp add: idx_def)
    then show ?thesis using run_delete[OF w True r, of n] OpDeleteRange index_idx[OF w, of "int j"] sj
      by (simp add: run_op_def ziplistDeleteRange_def)
  next
    case False
    then have "idx es (int j) = None" "del_spec es j n = es" by (simp_all add: idx_def del_spec_def)
    then show ?thesis using OpDeleteRange index_idx[OF w, of "int j"] sj w count_same[OF w]
      by (simp add: run_op_def ziplistDeleteRange_def)
  qed
qed

lemma run_ops_wf:
  assumes "wf c es" "ops_ok es ops"
  shows "run_ops (zl_of c es) ops = Some (zl_of (counts c es ops) (foldl apply_op es ops))
     \<and> wf (counts c es ops) (foldl apply_op es ops)"
  using assms
proof (induction ops arbitrary: c es)
  case Nil
  then show ?case by simp
next
  case (Cons op ops)
  from Cons.prems have ok: "op_ok es op" "ops_ok (apply_op es op) ops" by simp_all
  note s = run_op_step[OF Cons.prems(1) ok(1)]
  from Cons.IH[OF conjunct2[OF s] ok(2)] s show ?case by simp
qed

end
